theory Spec2Isabelle
  imports
    Complex_Main
    "HOL-Library.Multiset"
    "HOL-Library.Stream"
    "HOL-Library.Char_ord"
    "HOL-Library.List_Lexorder"
begin

section \<open>The knapsack genetic algorithm of knapsackGenAlgo.py\<close>

text \<open>
  The development embeds \<^verbatim>\<open>src/knapsackGenAlgo.py\<close>. Conventions:

  \<^item> A \<^verbatim>\<open>Box\<close> is never assigned to after its construction. It is modelled by its three
    fields together with \<open>box_id\<close>, the identity of the Python object: the class defines
    no \<^verbatim>\<open>__eq__\<close>, so \<^verbatim>\<open>==\<close> and \<^verbatim>\<open>in\<close> on boxes compare identities, and two boxes built
    with the same arguments are different objects.
  \<^item> Numbers are Python integers (\<open>int\<close>), as in the driver's catalog. The quotient
    \<^verbatim>\<open>(weight - 120)/2\<close> is a float: \<open>int_of_half\<close> rounds it to 53 significant bits and
    raises OverflowError where Python does. \<^verbatim>\<open>int(len(...)/2)\<close> is the integer quotient, a
    list being far shorter than \<open>2^53\<close>. The mutation probability is a rational number.
  \<^item> A \<^verbatim>\<open>Chromosome\<close> is a mutable object that several lists may hold at once
    (\<^verbatim>\<open>crossover\<close> can return its first argument), so chromosomes live in a store and
    lists hold references.
  \<^item> The generator behind \<^verbatim>\<open>random\<close> is a stream of naturals: each call of
    \<^verbatim>\<open>randint\<close>, \<^verbatim>\<open>choice\<close> or of the index draw inside \<^verbatim>\<open>shuffle\<close> consumes one element
    \<open>d\<close> and yields \<open>d mod n\<close> for its \<open>n\<close> possible outcomes.
  \<^item> An uncaught Python exception is the \<open>Inl\<close> of a sum; a loop that may run forever
    returns an \<open>option\<close>, \<open>None\<close> standing for a run that never returns.
  \<^item> \<^verbatim>\<open>print\<close> calls are left out.
\<close>

subsection \<open>Data\<close>

type_synonym ref = nat

type_synonym rng = "nat stream"

datatype error = IndexError | OverflowError

record box =
  box_id :: ref
  name :: string
  weight :: int
  "value" :: int

record chromosome =
  boxes :: "box list"
  total_weight :: int
  total_value :: int
  fitness :: int

text \<open>The store of chromosome objects: \<open>next_ref\<close> is the next unused address.\<close>

record store =
  objs :: "ref \<Rightarrow> chromosome"
  next_ref :: ref

text \<open>
  A \<^verbatim>\<open>Population\<close> object: the field \<^verbatim>\<open>population\<close> (a list of chromosome references)
  and the field \<^verbatim>\<open>size\<close>, here \<open>pop_size\<close>.
\<close>

record Population =
  population :: "ref list"
  pop_size :: nat

subsection \<open>The random module\<close>

text \<open>\<^verbatim>\<open>random.randint(lo, hi)\<close>; the program calls it with \<open>(0, 1)\<close> and \<open>(0, 10)\<close> only.\<close>

definition randint :: "int \<Rightarrow> int \<Rightarrow> rng \<Rightarrow> int \<times> rng" where
  "randint lo hi g = (lo + int (shd g mod nat (hi - lo + 1)), stl g)"

text \<open>\<^verbatim>\<open>random.choice(seq)\<close> raises IndexError on an empty sequence.\<close>

definition choice :: "'a list \<Rightarrow> rng \<Rightarrow> error + ('a \<times> rng)" where
  "choice xs g = (if xs = [] then Inl IndexError else Inr (xs ! (shd g mod length xs), stl g))"

text \<open>
  \<^verbatim>\<open>random.shuffle(x)\<close>: for \<open>i\<close> from \<open>len(x) - 1\<close> down to \<open>1\<close>, draw \<open>j\<close> in \<open>[0, i]\<close>
  and swap \<open>x[i]\<close> with \<open>x[j]\<close>.
\<close>

fun shuffle_from :: "nat \<Rightarrow> 'a list \<Rightarrow> rng \<Rightarrow> 'a list \<times> rng" where
  "shuffle_from 0 xs g = (xs, g)"
| "shuffle_from (Suc i) xs g =
     (let j = shd g mod (Suc i + 1)
      in shuffle_from i (xs[Suc i := xs ! j, j := xs ! Suc i]) (stl g))"

definition shuffle :: "'a list \<Rightarrow> rng \<Rightarrow> 'a list \<times> rng" where
  "shuffle xs g = shuffle_from (length xs - 1) xs g"

subsection \<open>Chromosome\<close>

text \<open>\<^verbatim>\<open>sum_weight\<close> and \<^verbatim>\<open>sum_value\<close>: a running sum over \<^verbatim>\<open>self.boxes\<close>.\<close>

definition sum_weight :: "chromosome \<Rightarrow> int" where
  "sum_weight c = fold (\<lambda>i s. s + weight i) (boxes c) 0"

definition sum_value :: "chromosome \<Rightarrow> int" where
  "sum_value c = fold (\<lambda>i s. s + value i) (boxes c) 0"

text \<open>\<^verbatim>\<open>int.bit_length()\<close> of a non-negative integer.\<close>

function bit_length :: "int \<Rightarrow> nat" where
  "bit_length n = (if n \<le> 0 then 0 else Suc (bit_length (n div 2)))"
  by pat_completeness auto
termination
  by (relation "measure nat") auto

text \<open>
  \<^verbatim>\<open>int(n / 2)\<close> for a Python integer \<open>n\<close>. The true division of two integers gives the
  double nearest to the exact quotient, ties going to the even mantissa, and raises
  OverflowError when that double would be \<open>2^1024\<close> or more; \<^verbatim>\<open>int\<close> then truncates towards
  zero. Below \<open>2^53\<close> the quotient \<open>n / 2\<close> is exact. From \<open>2^53\<close> on, the exact quotient has
  \<open>s = bit_length n - 53\<close> bits too many: it is \<open>(m + r / 2^s)\<close> units of \<open>2^(s-1)\<close>, and the
  mantissa \<open>m\<close> is rounded by comparing the remainder \<open>r\<close> with the half \<open>2^(s-1)\<close>.
\<close>

definition int_of_half :: "int \<Rightarrow> error + int" where
  "int_of_half n =
     (let a = \<bar>n\<bar>
      in if a < 2 ^ 53 then Inr (sgn n * (a div 2))
         else
           (let s = bit_length a - 53;
                m = a div 2 ^ s;
                r = a mod 2 ^ s;
                h = 2 ^ (s - 1);
                m' = (if h < r \<or> (r = h \<and> odd m) then m + 1 else m);
                v = m' * 2 ^ (s - 1)
            in if 2 ^ 1024 \<le> v then Inl OverflowError else Inr (sgn n * v)))"

text \<open>
  \<^verbatim>\<open>calc_fitness\<close>: one loop accumulates \<^verbatim>\<open>fit_score\<close> and \<^verbatim>\<open>weight\<close>; then the penalty
  \<^verbatim>\<open>int((weight - 120)/2)\<close> or the bonus (\<^verbatim>\<open>ideal_weight_bonus = 2\<close>) is applied.
\<close>

definition calc_fitness :: "chromosome \<Rightarrow> error + int" where
  "calc_fitness c =
     (let (fit_score, w) = fold (\<lambda>i (fs, w). (fs + value i, w + weight i)) (boxes c) (0, 0)
      in if w > 120 then
           (case int_of_half (w - 120) of
              Inl e \<Rightarrow> Inl e
            | Inr penalty \<Rightarrow> Inr (fit_score - penalty))
         else if w = 120 then Inr (fit_score + 2)
         else Inr fit_score)"

text \<open>
  \<^verbatim>\<open>gen_chromosome\<close>: an empty catalog gives no genes and draws nothing. Otherwise the
  caller's list is shuffled in place and \<^verbatim>\<open>box_list[0]\<close>, \<^verbatim>\<open>box_list[1]\<close>, \<^verbatim>\<open>box_list[2]\<close>
  are read in turn; a read past the end raises IndexError. The result carries the genes,
  the shuffled catalog and the generator.
\<close>

function gen_loop :: "nat \<Rightarrow> box list \<Rightarrow> box list \<Rightarrow> error + box list" where
  "gen_loop i box_list chrom =
     (if i < 3 then
        (if i < length box_list then gen_loop (Suc i) box_list (chrom @ [box_list ! i])
         else Inl IndexError)
      else Inr chrom)"
  by pat_completeness auto
termination
  by (relation "measure (\<lambda>(i, box_list, chrom). 3 - i)") auto

definition gen_chromosome :: "box list \<Rightarrow> rng \<Rightarrow> error + (box list \<times> box list \<times> rng)" where
  "gen_chromosome box_list g =
     (if length box_list = 0 then Inr ([], box_list, g)
      else
        (let (box_list', g') = shuffle box_list g
         in case gen_loop 0 box_list' [] of
              Inl e \<Rightarrow> Inl e
            | Inr chrom \<Rightarrow> Inr (chrom, box_list', g')))"

text \<open>
  \<^verbatim>\<open>Chromosome(boxes)\<close>: a new object whose derived fields are computed from its genes,
  in the order of \<^verbatim>\<open>__init__\<close>; an exception of \<^verbatim>\<open>calc_fitness\<close> leaves no object.
\<close>

definition new_chromosome :: "box list \<Rightarrow> error + chromosome" where
  "new_chromosome bs =
     (let c0 = \<lparr>boxes = bs, total_weight = 0, total_value = 0, fitness = 0\<rparr>;
          c1 = c0\<lparr>total_weight := sum_weight c0\<rparr>;
          c2 = c1\<lparr>total_value := sum_value c1\<rparr>
      in case calc_fitness c2 of
           Inl e \<Rightarrow> Inl e
         | Inr f \<Rightarrow> Inr (c2\<lparr>fitness := f\<rparr>))"

definition Chromosome :: "store \<Rightarrow> box list \<Rightarrow> rng \<Rightarrow> error + (store \<times> ref \<times> box list \<times> rng)" where
  "Chromosome s box_list g =
     (case gen_chromosome box_list g of
        Inl e \<Rightarrow> Inl e
      | Inr (chrom, box_list', g') \<Rightarrow>
          (case new_chromosome chrom of
             Inl e \<Rightarrow> Inl e
           | Inr c \<Rightarrow>
               Inr (s\<lparr>objs := (objs s)(next_ref s := c), next_ref := Suc (next_ref s)\<rparr>,
                    next_ref s, box_list', g')))"

subsection \<open>Population\<close>

text \<open>
  \<^verbatim>\<open>get_fittest\<close>: \<^verbatim>\<open>sorted(..., key=fitness, reverse=True)\<close>. Python's sort is stable also
  when reversed, so it is the stable sort on the negated key.
\<close>

definition get_fittest :: "store \<Rightarrow> Population \<Rightarrow> Population" where
  "get_fittest s p = p\<lparr>population := sort_key (\<lambda>x. - fitness (objs s x)) (population p)\<rparr>"

definition cull :: "store \<Rightarrow> Population \<Rightarrow> Population" where
  "cull s p =
     (let p1 = get_fittest s p;
          len = length (population p1) div 2;
          p2 = p1\<lparr>population := take len (population p1)\<rparr>
      in p2\<lparr>pop_size := len\<rparr>)"

text \<open>\<^verbatim>\<open>return_fittest\<close>: sort, then \<^verbatim>\<open>population[0]\<close>, an IndexError when there is none.\<close>

definition return_fittest :: "store \<Rightarrow> Population \<Rightarrow> error + (Population \<times> ref)" where
  "return_fittest s p =
     (let p1 = get_fittest s p
      in if population p1 = [] then Inl IndexError else Inr (p1, population p1 ! 0))"

subsection \<open>Genetic operators\<close>

text \<open>\<^verbatim>\<open>dupe_check\<close>: both gene lists sorted by name (stable), compared as lists.\<close>

definition dupe_check :: "chromosome \<Rightarrow> chromosome \<Rightarrow> bool" where
  "dupe_check x y =
     (let temp1 = sort_key name (boxes x);
          temp2 = sort_key name (boxes y)
      in if temp1 = temp2 then True else False)"

text \<open>
  \<^verbatim>\<open>crossover\<close>, the loop over the positions of \<^verbatim>\<open>temp1\<close>. \<^verbatim>\<open>temp2[i]\<close> is read
  only on the paths that evaluate it; reading it past the end of \<^verbatim>\<open>temp2\<close> raises
  IndexError.
\<close>

function crossover_loop ::
  "nat \<Rightarrow> box list \<Rightarrow> box list \<Rightarrow> box list \<Rightarrow> rng \<Rightarrow> error + (box list \<times> rng)" where
  "crossover_loop i temp1 temp2 baby g =
     (if i < length temp1 then
        (let (which, g') = randint 0 1 g
         in if which = 0 then
              (if temp1 ! i \<in> set baby then
                 (if i < length temp2
                  then crossover_loop (Suc i) temp1 temp2 (baby @ [temp2 ! i]) g'
                  else Inl IndexError)
               else crossover_loop (Suc i) temp1 temp2 (baby @ [temp1 ! i]) g')
            else
              (if i < length temp2 then
                 (if temp2 ! i \<in> set baby
                  then crossover_loop (Suc i) temp1 temp2 (baby @ [temp1 ! i]) g'
                  else crossover_loop (Suc i) temp1 temp2 (baby @ [temp2 ! i]) g')
               else Inl IndexError))
      else Inr (baby, g))"
  by pat_completeness auto
termination
  by (relation "measure (\<lambda>(i, temp1, temp2, baby, g). length temp1 - i)") auto

text \<open>
  \<^verbatim>\<open>crossover\<close>: duplicates of each other are not bred, the first parent itself is
  returned. Otherwise \<^verbatim>\<open>Chromosome([])\<close> allocates the child and the loop fills its genes.
\<close>

definition crossover :: "store \<Rightarrow> ref \<Rightarrow> ref \<Rightarrow> rng \<Rightarrow> error + (store \<times> ref \<times> rng)" where
  "crossover s x y g =
     (if dupe_check (objs s x) (objs s y) then Inr (s, x, g)
      else
        (case Chromosome s [] g of
           Inl e \<Rightarrow> Inl e
         | Inr (s1, baby, temp, g1) \<Rightarrow>
             (let temp1 = sort_key name (boxes (objs s1 x));
                  temp2 = sort_key name (boxes (objs s1 y))
              in case crossover_loop 0 temp1 temp2 (boxes (objs s1 baby)) g1 of
                   Inl e \<Rightarrow> Inl e
                 | Inr (bs, g2) \<Rightarrow>
                     Inr (s1\<lparr>objs := (objs s1)(baby := (objs s1 baby)\<lparr>boxes := bs\<rparr>)\<rparr>,
                          baby, g2))))"

text \<open>\<^verbatim>\<open>mutant_prob\<close>: \<^verbatim>\<open>temp <= probability * 10\<close> for a draw \<^verbatim>\<open>temp\<close> of \<^verbatim>\<open>randint(0,10)\<close>.\<close>

definition mutant_prob :: "rat \<Rightarrow> rng \<Rightarrow> bool \<times> rng" where
  "mutant_prob probability g =
     (let probability' = probability * 10;
          (temp, g') = randint 0 10 g
      in (if of_int temp \<le> probability' then True else False, g'))"

text \<open>
  \<^verbatim>\<open>mutate\<close>, first loop: the working copy of the catalog loses one occurrence of every
  gene of the child that it holds.
\<close>

definition mutate_pool :: "box list \<Rightarrow> box list \<Rightarrow> box list" where
  "mutate_pool baby_boxes bxs =
     fold (\<lambda>i temp_list. if i \<in> set temp_list then remove1 i temp_list else temp_list)
       baby_boxes bxs"

text \<open>
  \<^verbatim>\<open>mutate\<close>, second loop: a position that mutates takes \<^verbatim>\<open>random.choice(temp_list)\<close>, an
  IndexError when the pool is empty, and the chosen box leaves the pool.
\<close>

function mutate_loop ::
  "nat \<Rightarrow> rat \<Rightarrow> box list \<Rightarrow> box list \<Rightarrow> rng \<Rightarrow> error + (box list \<times> box list \<times> rng)" where
  "mutate_loop j probability baby_boxes temp_list g =
     (if j < length baby_boxes then
        (if fst (mutant_prob probability g) then
           (case choice temp_list (snd (mutant_prob probability g)) of
              Inl e \<Rightarrow> Inl e
            | Inr (b, g2) \<Rightarrow>
                mutate_loop (Suc j) probability (baby_boxes[j := b]) (remove1 b temp_list) g2)
         else mutate_loop (Suc j) probability baby_boxes temp_list
                (snd (mutant_prob probability g)))
      else Inr (baby_boxes, temp_list, g))"
  by pat_completeness auto
termination
  by (relation "measure (\<lambda>(j, probability, baby_boxes, temp_list, g). length baby_boxes - j)")
    auto

definition mutate ::
  "store \<Rightarrow> ref \<Rightarrow> rat \<Rightarrow> box list \<Rightarrow> rng \<Rightarrow> error + (store \<times> ref \<times> rng)" where
  "mutate s baby probability bxs g =
     (let temp_list = mutate_pool (boxes (objs s baby)) bxs
      in case mutate_loop 0 probability (boxes (objs s baby)) temp_list g of
           Inl e \<Rightarrow> Inl e
         | Inr (bs, temp_list', g') \<Rightarrow>
             Inr (s\<lparr>objs := (objs s)(baby := (objs s baby)\<lparr>boxes := bs\<rparr>)\<rparr>, baby, g'))"

subsection \<open>The evolution driver\<close>

text \<open>
  The re-draw of the second parent: \<^verbatim>\<open>while x == y: y = random.choice(...)\<close>. Chromosomes
  are compared by identity. Nothing bounds the number of rounds.
\<close>

partial_function (option) redraw ::
  "ref list \<Rightarrow> ref \<Rightarrow> ref \<Rightarrow> rng \<Rightarrow> (error + (ref \<times> rng)) option" where
  "redraw members x y g =
     (if x = y then
        (case choice members g of
           Inl e \<Rightarrow> Some (Inl e)
         | Inr (y', g') \<Rightarrow> redraw members x y' g')
      else Some (Inr (y, g)))"

text \<open>
  The body of the inner loop of \<^verbatim>\<open>genetic_algo\<close>: two parents, the re-draw, crossover,
  mutation with \<^verbatim>\<open>MUTANT_PROB = .30\<close>, the three derived fields in the source's order, and
  the append to the next generation.
\<close>

definition breed ::
  "store \<Rightarrow> Population \<Rightarrow> Population \<Rightarrow> box list \<Rightarrow> rng
     \<Rightarrow> (error + (store \<times> Population \<times> rng)) option" where
  "breed s pop nextgen bxs g =
     (case choice (population pop) g of
        Inl e \<Rightarrow> Some (Inl e)
      | Inr (x, g1) \<Rightarrow>
     (case choice (population pop) g1 of
        Inl e \<Rightarrow> Some (Inl e)
      | Inr (y, g2) \<Rightarrow>
     (case redraw (population pop) x y g2 of
        None \<Rightarrow> None
      | Some (Inl e) \<Rightarrow> Some (Inl e)
      | Some (Inr (y', g3)) \<Rightarrow>
     (case crossover s x y' g3 of
        Inl e \<Rightarrow> Some (Inl e)
      | Inr (s1, child, g4) \<Rightarrow>
     (case mutate s1 child (3 / 10) bxs g4 of
        Inl e \<Rightarrow> Some (Inl e)
      | Inr (s2, child', g5) \<Rightarrow>
     (case calc_fitness (objs s2 child') of
        Inl e \<Rightarrow> Some (Inl e)
      | Inr f \<Rightarrow>
          (let s3 = s2\<lparr>objs := (objs s2)(child' := (objs s2 child')\<lparr>fitness := f\<rparr>)\<rparr>;
               s4 = s3\<lparr>objs := (objs s3)
                      (child' := (objs s3 child')\<lparr>total_weight := sum_weight (objs s3 child')\<rparr>)\<rparr>;
               s5 = s4\<lparr>objs := (objs s4)
                      (child' := (objs s4 child')\<lparr>total_value := sum_value (objs s4 child')\<rparr>)\<rparr>
           in Some (Inr (s5, nextgen\<lparr>population := population nextgen @ [child']\<rparr>, g5)))))))))"

text \<open>
  The inner loop, \<^verbatim>\<open>for j in range(0, nextgen.size)\<close>; the bound \<open>n\<close> is read once, when
  the loop starts.
\<close>

function build_loop ::
  "nat \<Rightarrow> nat \<Rightarrow> store \<Rightarrow> Population \<Rightarrow> Population \<Rightarrow> box list \<Rightarrow> rng
     \<Rightarrow> (error + (store \<times> Population \<times> rng)) option" where
  "build_loop j n s pop nextgen bxs g =
     (if j < n then
        (case breed s pop nextgen bxs g of
           None \<Rightarrow> None
         | Some (Inl e) \<Rightarrow> Some (Inl e)
         | Some (Inr (s', nextgen', g')) \<Rightarrow> build_loop (Suc j) n s' pop nextgen' bxs g')
      else Some (Inr (s, nextgen, g)))"
  by pat_completeness auto
termination
  by (relation "measure (\<lambda>(j, n, s, pop, nextgen, bxs, g). n - j)") auto

text \<open>
  The outer loop, \<^verbatim>\<open>for i in range(0,5)\<close>, with \<^verbatim>\<open>MAX_SCORE = 22\<close>. A run that returns
  gives the final store, both population objects, the returned value (\<open>None\<close> for
  Python's \<^verbatim>\<open>None\<close>) and the generator.
\<close>

type_synonym outcome = "store \<times> Population \<times> Population \<times> ref option \<times> rng"

function generations ::
  "nat \<Rightarrow> store \<Rightarrow> Population \<Rightarrow> Population \<Rightarrow> box list \<Rightarrow> rng \<Rightarrow> (error + outcome) option" where
  "generations i s pop nextgen bxs g =
     (if i < 5 then
        (case build_loop 0 (pop_size nextgen) s pop nextgen bxs g of
           None \<Rightarrow> None
         | Some (Inl e) \<Rightarrow> Some (Inl e)
         | Some (Inr (s1, nextgen1, g1)) \<Rightarrow>
             (case return_fittest s1 nextgen1 of
                Inl e \<Rightarrow> Some (Inl e)
              | Inr (nextgen2, fittest) \<Rightarrow>
                  if fitness (objs s1 fittest) = 22 then
                    (case return_fittest s1 nextgen2 of
                       Inl e \<Rightarrow> Some (Inl e)
                     | Inr (nextgen3, best) \<Rightarrow> Some (Inr (s1, pop, nextgen3, Some best, g1)))
                  else
                    (let pop1 = pop\<lparr>population := population nextgen2\<rparr>;
                         pop2 = cull s1 pop1;
                         nextgen3 = nextgen2\<lparr>population := []\<rparr>
                     in generations (Suc i) s1 pop2 nextgen3 bxs g1)))
      else Some (Inr (s, pop, nextgen, None, g)))"
  by pat_completeness auto
termination
  by (relation "measure (\<lambda>(i, s, pop, nextgen, bxs, g). 5 - i)") auto

definition genetic_algo ::
  "store \<Rightarrow> Population \<Rightarrow> box list \<Rightarrow> rng \<Rightarrow> (error + outcome) option" where
  "genetic_algo s pop bxs g =
     generations 0 s pop \<lparr>population = [], pop_size = pop_size pop\<rparr> bxs g"

text \<open>
  \<^verbatim>\<open>generate_population\<close>: \<^verbatim>\<open>self.size\<close> new chromosomes, each construction shuffling
  the caller's catalog in place.
\<close>

function generate_loop ::
  "nat \<Rightarrow> nat \<Rightarrow> store \<Rightarrow> Population \<Rightarrow> box list \<Rightarrow> rng
     \<Rightarrow> error + (store \<times> Population \<times> box list \<times> rng)" where
  "generate_loop i n s pop box_list g =
     (if i < n then
        (case Chromosome s box_list g of
           Inl e \<Rightarrow> Inl e
         | Inr (s', chrom, box_list', g') \<Rightarrow>
             generate_loop (Suc i) n s' (pop\<lparr>population := population pop @ [chrom]\<rparr>)
               box_list' g')
      else Inr (s, pop, box_list, g))"
  by pat_completeness auto
termination
  by (relation "measure (\<lambda>(i, n, s, pop, box_list, g). n - i)") auto

definition generate_population ::
  "store \<Rightarrow> Population \<Rightarrow> box list \<Rightarrow> rng \<Rightarrow> error + (store \<times> Population \<times> box list \<times> rng)" where
  "generate_population s pop box_list g = generate_loop 0 (pop_size pop) s pop box_list g"

text \<open>
  The driver: the catalog of seven boxes, \<^verbatim>\<open>POP_SIZE = 35\<close>, the initial population and
  the call of \<^verbatim>\<open>genetic_algo\<close>, on the catalog as the shuffles have left it. The prints that
  follow the call are left out.
\<close>

definition box_a :: box where "box_a = \<lparr>box_id = 0, name = ''a'', weight = 20, value = 6\<rparr>"
definition box_b :: box where "box_b = \<lparr>box_id = 1, name = ''b'', weight = 30, value = 5\<rparr>"
definition box_c :: box where "box_c = \<lparr>box_id = 2, name = ''c'', weight = 60, value = 8\<rparr>"
definition box_d :: box where "box_d = \<lparr>box_id = 3, name = ''d'', weight = 90, value = 7\<rparr>"
definition box_e :: box where "box_e = \<lparr>box_id = 4, name = ''e'', weight = 50, value = 6\<rparr>"
definition box_f :: box where "box_f = \<lparr>box_id = 5, name = ''f'', weight = 70, value = 9\<rparr>"
definition box_g :: box where "box_g = \<lparr>box_id = 6, name = ''g'', weight = 30, value = 4\<rparr>"

definition catalog :: "box list" where
  "catalog = [box_a, box_b, box_c, box_d, box_e, box_f, box_g]"

text \<open>The chromosome that \<^verbatim>\<open>Chromosome([])\<close> builds, and the store before any allocation.\<close>

definition no_genes :: chromosome where
  "no_genes = \<lparr>boxes = [], total_weight = 0, total_value = 0, fitness = 0\<rparr>"

definition empty_store :: store where
  "empty_store = \<lparr>objs = (\<lambda>r. no_genes), next_ref = 0\<rparr>"

text \<open>
  Chromosomes for examples, with the derived fields their constructor gives them: the
  genes a, b, c (weight 110, fitness 19; also in the order c, a, b), the genes a, b, f
  (weight exactly 120,
  fitness 22) and the genes c, d, f (weight 220, fitness 24 - 50). In the sample store
  object 0 is the first, object 1 the second, every other object the third.
\<close>

definition sample_abc :: chromosome where
  "sample_abc = \<lparr>boxes = [box_a, box_b, box_c], total_weight = 110, total_value = 19, fitness = 19\<rparr>"

definition sample_cab :: chromosome where
  "sample_cab = \<lparr>boxes = [box_c, box_a, box_b], total_weight = 110, total_value = 19, fitness = 19\<rparr>"

definition sample_child :: chromosome where
  "sample_child = \<lparr>boxes = [box_a, box_b, box_f], total_weight = 120, total_value = 20, fitness = 22\<rparr>"

definition sample_cdf :: chromosome where
  "sample_cdf = \<lparr>boxes = [box_c, box_d, box_f], total_weight = 220, total_value = 24, fitness = - 26\<rparr>"

definition sample_store :: store where
  "sample_store =
     \<lparr>objs = (\<lambda>r. if r = 0 then sample_abc else if r = 1 then sample_child else sample_cdf),
      next_ref = 3\<rparr>"

text \<open>
  A chromosome of one box of weight \<open>2^53 + 123\<close> and value 0, with the fields its
  constructor gives it.
\<close>

definition heavy :: chromosome where
  "heavy = \<lparr>boxes = [\<lparr>box_id = 0, name = ''h'', weight = 2 ^ 53 + 123, value = 0\<rparr>],
            total_weight = 2 ^ 53 + 123, total_value = 0, fitness = - 4503599627370498\<rparr>"

definition driver :: "rng \<Rightarrow> (error + outcome) option" where
  "driver g =
     (case generate_population empty_store \<lparr>population = [], pop_size = 35\<rparr> catalog g of
        Inl e \<Rightarrow> Some (Inl e)
      | Inr (s, pop, bxs, g') \<Rightarrow> genetic_algo s pop bxs g')"

text \<open>
  A finite sequence of draws for the driver. The first 35 groups of six leave the catalog
  in order at each shuffle (position \<open>i\<close> is swapped with itself), so every initial
  chromosome gets the genes a, b, c. The next 35 groups of five serve one breeding step
  each: member 0 and member 1 of the population as parents, and three draws of 7 for
  \<^verbatim>\<open>mutant_prob\<close>, none of which mutates.
\<close>

definition stuck_draws :: "nat list" where
  "stuck_draws = concat (replicate 35 [6, 5, 4, 3, 2, 3]) @ concat (replicate 35 [0, 36, 7, 7, 7])"

declare bit_length.simps [simp del]
declare gen_loop.simps [simp del]
declare crossover_loop.simps [simp del]
declare mutate_loop.simps [simp del]
declare build_loop.simps [simp del]
declare generations.simps [simp del]
declare generate_loop.simps [simp del]

section \<open>Fitness\<close>

lemma fold_fitness_sums:
  "fold (\<lambda>i (fs, w). (fs + value i, w + weight i)) bs (a, b) =
     (a + (\<Sum>i\<leftarrow>bs. value i), b + (\<Sum>i\<leftarrow>bs. weight i))"
  by (induction bs arbitrary: a b) simp_all

lemma fold_weight_sum: "fold (\<lambda>i s. s + weight i) bs a = a + (\<Sum>i\<leftarrow>bs. weight i)"
  by (induction bs arbitrary: a) simp_all

lemma fold_value_sum: "fold (\<lambda>i s. s + value i) bs a = a + (\<Sum>i\<leftarrow>bs. value i)"
  by (induction bs arbitrary: a) simp_all

lemma sum_weight_eq: "sum_weight c = (\<Sum>i\<leftarrow>boxes c. weight i)"
  by (simp add: sum_weight_def fold_weight_sum)

lemma sum_value_eq: "sum_value c = (\<Sum>i\<leftarrow>boxes c. value i)"
  by (simp add: sum_value_def fold_value_sum)

lemma int_of_half_exact:
  "0 \<le> n \<Longrightarrow> n < 2 ^ 53 \<Longrightarrow> int_of_half n = Inr (n div 2)"
  by (cases "n = 0") (simp_all add: int_of_half_def)

lemma bit_length_between:
  "0 < n \<Longrightarrow> 2 ^ k \<le> n \<Longrightarrow> n < 2 ^ Suc k \<Longrightarrow> bit_length n = Suc k"
proof (induction k arbitrary: n)
  case 0
  then have "n = 1"
    by simp
  then show ?case
    by (simp add: bit_length.simps [of 1] bit_length.simps [of 0])
next
  case (Suc k)
  have "0 < (2::int) ^ k" "2 * 2 ^ k \<le> n" "n < 2 * (2 * 2 ^ k)"
    using Suc.prems by simp_all
  then have "0 < n div 2" "2 ^ k \<le> n div 2" "n div 2 < 2 * 2 ^ k"
    by linarith+
  then have "0 < n div 2" "2 ^ k \<le> n div 2" "n div 2 < 2 ^ Suc k"
    by simp_all
  then have "bit_length (n div 2) = Suc k"
    by (rule Suc.IH)
  then show ?case
    using Suc.prems(1) by (subst bit_length.simps) simp
qed

text \<open>From \<open>2^1024\<close> on the half is too large for a float.\<close>

lemma int_of_half_overflow: "int_of_half (2 ^ 1025) = Inl OverflowError"
proof -
  have "bit_length (2 ^ 1025) = Suc 1025"
    by (rule bit_length_between) simp_all
  then show ?thesis
    by (simp add: int_of_half_def Let_def)
qed

text \<open>
  Claim C1, amended. For every chromosome whose genes weigh less than \<open>2^53 + 120\<close> in
  total, \<open>calc_fitness\<close> returns the sum of the genes' values, minus
  \<open>floor((W - 120) / 2)\<close> when the total weight \<open>W\<close> exceeds 120, plus 2 when \<open>W\<close> is exactly
  120, and unchanged when \<open>W\<close> is below 120. The first conjunct is the closed formula with
  \<open>max\<close>, the second the three cases; the last two say that \<open>W\<close> and the value sum are
  what \<open>sum_weight\<close> and \<open>sum_value\<close> store in \<open>total_weight\<close> and \<open>total_value\<close>.
\<close>

theorem calc_fitness_formula:
  assumes "(\<Sum>i\<leftarrow>boxes c. weight i) < 2 ^ 53 + 120"
  shows "calc_fitness c =
     Inr ((\<Sum>i\<leftarrow>boxes c. value i)
       - max 0 (((\<Sum>i\<leftarrow>boxes c. weight i) - 120) div 2)
       + (if (\<Sum>i\<leftarrow>boxes c. weight i) = 120 then 2 else 0))
   \<and> calc_fitness c =
     Inr (if (\<Sum>i\<leftarrow>boxes c. weight i) > 120
      then (\<Sum>i\<leftarrow>boxes c. value i) - ((\<Sum>i\<leftarrow>boxes c. weight i) - 120) div 2
      else if (\<Sum>i\<leftarrow>boxes c. weight i) = 120 then (\<Sum>i\<leftarrow>boxes c. value i) + 2
      else (\<Sum>i\<leftarrow>boxes c. value i))
   \<and> sum_weight c = (\<Sum>i\<leftarrow>boxes c. weight i)
   \<and> sum_value c = (\<Sum>i\<leftarrow>boxes c. value i)"
proof -
  let ?W = "\<Sum>i\<leftarrow>boxes c. weight i"
  let ?V = "\<Sum>i\<leftarrow>boxes c. value i"
  have half: "int_of_half (?W - 120) = Inr ((?W - 120) div 2)" if "?W > 120"
    using that assms by (intro int_of_half_exact) simp_all
  have cases: "calc_fitness c =
      Inr (if ?W > 120 then ?V - (?W - 120) div 2 else if ?W = 120 then ?V + 2 else ?V)"
    using half by (simp add: calc_fitness_def fold_fitness_sums)
  have "?W > 120 \<Longrightarrow> max 0 ((?W - 120) div 2) = (?W - 120) div 2"
    by simp
  moreover have "\<not> ?W > 120 \<Longrightarrow> max 0 ((?W - 120) div 2) = 0"
    by simp
  ultimately have formula:
    "calc_fitness c = Inr (?V - max 0 ((?W - 120) div 2) + (if ?W = 120 then 2 else 0))"
    using cases by (cases "?W > 120") simp_all
  show ?thesis
    using formula cases sum_weight_eq [of c] sum_value_eq [of c] by blast
qed

lemmas box_defs = box_a_def box_b_def box_c_def box_d_def box_e_def box_f_def box_g_def

text \<open>
  The theorem at the sample chromosomes: c, d, f weighs 220 and pays the penalty 50;
  a, b, f weighs exactly 120 and earns the bonus; a, b, c weighs 110.
\<close>

theorem calc_fitness_formula_witness:
  "(\<Sum>i\<leftarrow>boxes sample_cdf. weight i) < 2 ^ 53 + 120
   \<and> calc_fitness sample_cdf = Inr (- 26)
   \<and> calc_fitness sample_child = Inr 22
   \<and> calc_fitness sample_abc = Inr 19"
proof -
  have w: "(\<Sum>i\<leftarrow>boxes sample_cdf. weight i) = 220"
    "(\<Sum>i\<leftarrow>boxes sample_child. weight i) = 120"
    "(\<Sum>i\<leftarrow>boxes sample_abc. weight i) = 110"
    by (simp_all add: sample_cdf_def sample_child_def sample_abc_def box_defs)
  have v: "(\<Sum>i\<leftarrow>boxes sample_cdf. value i) = 24"
    "(\<Sum>i\<leftarrow>boxes sample_child. value i) = 20"
    "(\<Sum>i\<leftarrow>boxes sample_abc. value i) = 19"
    by (simp_all add: sample_cdf_def sample_child_def sample_abc_def box_defs)
  have "calc_fitness sample_cdf = Inr (- 26)"
    using calc_fitness_formula [of sample_cdf] by (simp add: w v)
  moreover have "calc_fitness sample_child = Inr 22"
    using calc_fitness_formula [of sample_child] by (simp add: w v)
  moreover have "calc_fitness sample_abc = Inr 19"
    using calc_fitness_formula [of sample_abc] by (simp add: w v)
  ultimately show ?thesis
    by (simp add: w)
qed

text \<open>
  Claim C1, as stated for every chromosome, fails: from a weight of \<open>2^53 + 123\<close> on, the
  float quotient \<open>(weight - 120)/2\<close> is rounded. For the one-box chromosome of that weight
  the exact half \<open>2^52 + 1.5\<close> becomes \<open>2^52 + 2\<close>, one more than the floor.
\<close>

theorem calc_fitness_formula_counterexample:
  "calc_fitness heavy = Inr (- 4503599627370498)
   \<and> (\<Sum>i\<leftarrow>boxes heavy. value i)
       - max 0 (((\<Sum>i\<leftarrow>boxes heavy. weight i) - 120) div 2)
       + (if (\<Sum>i\<leftarrow>boxes heavy. weight i) = 120 then 2 else 0)
     = - 4503599627370497"
proof -
  have "bit_length 9007199254740995 = Suc 53"
    by (rule bit_length_between) simp_all
  then have "int_of_half 9007199254740995 = Inr 4503599627370498"
    by (simp add: int_of_half_def Let_def)
  then show ?thesis
    by (simp add: calc_fitness_def heavy_def)
qed

section \<open>Ranking and culling\<close>

lemma sorted_desc_get_fittest:
  "sorted_wrt (\<lambda>x y. fitness (objs s y) \<le> fitness (objs s x)) (population (get_fittest s p))"
proof -
  have "sorted (map (\<lambda>x. - fitness (objs s x))
          (sort_key (\<lambda>x. - fitness (objs s x)) (population p)))"
    by (rule sorted_sort_key)
  then show ?thesis
    by (simp add: get_fittest_def sorted_map)
qed

lemma mset_get_fittest: "mset (population (get_fittest s p)) = mset (population p)"
  by (simp add: get_fittest_def)

text \<open>
  Claim C6. After \<open>get_fittest\<close> the member sequence is a permutation of the one before
  the call and is non-increasing in fitness; the size field is left as it was.
\<close>

theorem get_fittest_sorted_perm:
  "mset (population (get_fittest s p)) = mset (population p)
   \<and> sorted_wrt (\<lambda>x y. fitness (objs s x) \<ge> fitness (objs s y)) (population (get_fittest s p))
   \<and> pop_size (get_fittest s p) = pop_size p"
  using sorted_desc_get_fittest [of s p] by (simp add: mset_get_fittest) (simp add: get_fittest_def)

lemma sample_fitness:
  "fitness (objs sample_store 0) = 19" "fitness (objs sample_store (Suc 0)) = 22"
  "fitness (objs sample_store 2) = - 26"
  by (simp_all add: sample_store_def sample_abc_def sample_child_def sample_cdf_def)

lemma ranked_prefix_dominates:
  assumes "sorted_wrt P xs" and "x \<in> set (take n xs)" and "y \<in> set (drop n xs)"
  shows "P x y"
proof -
  have "sorted_wrt P (take n xs @ drop n xs)"
    using assms(1) by simp
  then show ?thesis
    using assms(2,3) unfolding sorted_wrt_append by blast
qed

lemma population_cull:
  "population (cull s p) = take (length (population p) div 2) (population (get_fittest s p))"
  by (simp add: cull_def Let_def get_fittest_def)

text \<open>
  Claim C5. For a population of \<open>N\<close> members, \<open>cull\<close> leaves exactly \<open>N div 2\<close> members
  and sets the size field to \<open>N div 2\<close>. The members left are the first \<open>N div 2\<close> of the
  ranking of \<open>get_fittest\<close>: they are in descending order of fitness, and together with
  the dropped members they make up the old population, none of the dropped being fitter
  than any member kept. A population of 0 or 1 members is culled to the empty one.
\<close>

theorem cull_keeps_fitter_half:
  "length (population (cull s p)) = length (population p) div 2
   \<and> pop_size (cull s p) = length (population p) div 2
   \<and> population (cull s p) = take (length (population p) div 2) (population (get_fittest s p))
   \<and> sorted_wrt (\<lambda>x y. fitness (objs s x) \<ge> fitness (objs s y)) (population (cull s p))
   \<and> (\<exists>dropped. mset (population (cull s p) @ dropped) = mset (population p)
        \<and> (\<forall>x\<in>set (population (cull s p)). \<forall>y\<in>set dropped.
              fitness (objs s x) \<ge> fitness (objs s y)))
   \<and> (length (population p) \<le> 1 \<longrightarrow> population (cull s p) = [] \<and> pop_size (cull s p) = 0)"
proof -
  let ?n = "length (population p) div 2"
  let ?srt = "population (get_fittest s p)"
  let ?ge = "\<lambda>x y. fitness (objs s x) \<ge> fitness (objs s y)"
  have len_srt: "length ?srt = length (population p)"
    by (simp add: get_fittest_def)
  have srt: "sorted_wrt ?ge ?srt"
    by (rule sorted_desc_get_fittest)
  have kept: "population (cull s p) = take ?n ?srt"
    by (rule population_cull)
  have len: "length (population (cull s p)) = ?n"
    by (simp add: kept len_srt)
  have sz: "pop_size (cull s p) = ?n"
    by (simp add: cull_def Let_def get_fittest_def)
  have desc: "sorted_wrt ?ge (population (cull s p))"
    unfolding kept using srt by (rule sorted_wrt_take)
  have "mset (take ?n ?srt @ drop ?n ?srt) = mset (population p)"
    by (simp add: mset_get_fittest)
  moreover have "\<forall>x\<in>set (take ?n ?srt). \<forall>y\<in>set (drop ?n ?srt). ?ge x y"
    using ranked_prefix_dominates [OF srt] by blast
  ultimately have half: "\<exists>dropped. mset (population (cull s p) @ dropped) = mset (population p)
        \<and> (\<forall>x\<in>set (population (cull s p)). \<forall>y\<in>set dropped. ?ge x y)"
    unfolding kept by blast
  have small: "length (population p) \<le> 1 \<longrightarrow> population (cull s p) = [] \<and> pop_size (cull s p) = 0"
    using len sz by auto
  show ?thesis
    using len sz kept desc half small by blast
qed

lemma get_fittest_sample:
  "population (get_fittest sample_store \<lparr>population = [0, Suc 0, 2], pop_size = 3\<rparr>)
     = [Suc 0, 0, 2]"
  by (simp add: get_fittest_def sample_fitness)

text \<open>
  The theorem at the sample store: of the members 0, 1, 2 with fitness 19, 22, -26 only
  member 1 is kept, and the one-member population is culled to nothing.
\<close>

theorem cull_keeps_fitter_half_witness:
  "population (cull sample_store \<lparr>population = [0, 1, 2], pop_size = 3\<rparr>) = [1]
   \<and> pop_size (cull sample_store \<lparr>population = [0, 1, 2], pop_size = 3\<rparr>) = 1
   \<and> mset ([1] @ [0, 2]) = mset [0, 1, 2 :: nat]
   \<and> fitness (objs sample_store 0) \<le> fitness (objs sample_store 1)
   \<and> fitness (objs sample_store 2) \<le> fitness (objs sample_store 1)
   \<and> length (population \<lparr>population = [0], pop_size = 1\<rparr>) \<le> 1
   \<and> population (cull sample_store \<lparr>population = [0], pop_size = 1\<rparr>) = []
   \<and> pop_size (cull sample_store \<lparr>population = [0], pop_size = 1\<rparr>) = 0"
proof -
  have three: "population (cull sample_store \<lparr>population = [0, 1, 2], pop_size = 3\<rparr>) = [1]
      \<and> pop_size (cull sample_store \<lparr>population = [0, 1, 2], pop_size = 3\<rparr>) = 1"
    using cull_keeps_fitter_half [of sample_store "\<lparr>population = [0, 1, 2], pop_size = 3\<rparr>"]
    by (simp add: get_fittest_sample)
  have one: "population (cull sample_store \<lparr>population = [0], pop_size = 1\<rparr>) = []
      \<and> pop_size (cull sample_store \<lparr>population = [0], pop_size = 1\<rparr>) = 0"
    using cull_keeps_fitter_half [of sample_store "\<lparr>population = [0], pop_size = 1\<rparr>"]
    by simp
  have rest: "fitness (objs sample_store 0) \<le> fitness (objs sample_store 1)
      \<and> fitness (objs sample_store 2) \<le> fitness (objs sample_store 1)"
    by (simp add: sample_fitness)
  show ?thesis
    using three one rest by simp
qed

section \<open>Duplicate detection\<close>

lemma sort_key_mset_inj:
  assumes inj: "inj_on f (set xs \<union> set ys)" and m: "mset xs = mset ys"
  shows "sort_key f xs = sort_key f ys"
proof (rule sort_key_inj_key_eq)
  show "mset xs = mset (sort_key f ys)"
    using m by simp
  show "inj_on f (set xs)"
    using inj by (rule inj_on_subset) simp
  show "sorted (map f (sort_key f ys))"
    by (rule sorted_sort_key)
qed

lemma dupe_check_iff: "dupe_check x y \<longleftrightarrow> sort_key name (boxes x) = sort_key name (boxes y)"
  by (simp add: dupe_check_def Let_def)

lemma dupe_check_same_items: "dupe_check x y \<Longrightarrow> mset (boxes x) = mset (boxes y)"
  unfolding dupe_check_iff by (metis mset_sort)

text \<open>
  Claim C7. Items are identified by their names: among the items of \<open>x\<close> and \<open>y\<close> no two
  different ones share a name, as in every catalog of uniquely named items. Then
  \<open>dupe_check x y\<close> holds if and only if \<open>x\<close> and \<open>y\<close> contain the same multiset of items,
  and if and only if their name-sorted gene sequences are equal.
\<close>

theorem dupe_check_multiset:
  assumes "inj_on name (set (boxes x) \<union> set (boxes y))"
  shows "(dupe_check x y \<longleftrightarrow> mset (boxes x) = mset (boxes y))
    \<and> (dupe_check x y \<longleftrightarrow> sort_key name (boxes x) = sort_key name (boxes y))"
  using assms dupe_check_same_items [of x y] sort_key_mset_inj [of name "boxes x" "boxes y"]
  unfolding dupe_check_iff by blast

text \<open>
  The theorem at two chromosomes of different items, and at two that hold the items
  a, b, c in different orders.
\<close>

theorem dupe_check_multiset_witness:
  "inj_on name (set (boxes sample_abc) \<union> set (boxes sample_child))
   \<and> \<not> dupe_check sample_abc sample_child
   \<and> inj_on name (set (boxes sample_abc) \<union> set (boxes sample_cab))
   \<and> dupe_check sample_abc sample_cab"
proof -
  have inj: "inj_on name (set (boxes sample_abc) \<union> set (boxes sample_child))"
    by (simp add: inj_on_def sample_abc_def sample_child_def box_defs)
  have inj2: "inj_on name (set (boxes sample_abc) \<union> set (boxes sample_cab))"
    by (simp add: inj_on_def sample_abc_def sample_cab_def box_defs)
  have differ: "\<not> dupe_check sample_abc sample_child"
    using dupe_check_multiset [OF inj]
    by (simp add: sample_abc_def sample_child_def box_defs)
  have same: "dupe_check sample_abc sample_cab"
    using dupe_check_multiset [OF inj2]
    by (simp add: sample_abc_def sample_cab_def box_defs)
  show ?thesis
    by (intro conjI inj differ inj2 same)
qed

section \<open>Chromosome construction\<close>

lemma length_shuffle_from: "length (fst (shuffle_from i xs g)) = length xs"
  by (induction i arbitrary: xs g) (simp_all add: Let_def)

lemma length_shuffle: "length (fst (shuffle xs g)) = length xs"
  by (simp add: shuffle_def length_shuffle_from)

lemma gen_loop_short:
  "length box_list < 3 \<Longrightarrow> i \<le> length box_list \<Longrightarrow> gen_loop i box_list chrom = Inl IndexError"
proof (induction i box_list chrom rule: gen_loop.induct)
  case (1 i box_list chrom)
  show ?case
  proof (cases "i < length box_list")
    case True
    then have "gen_loop (Suc i) box_list (chrom @ [box_list ! i]) = Inl IndexError"
      using "1.IH" "1.prems" by simp
    then show ?thesis
      using True "1.prems" by (subst gen_loop.simps) simp
  next
    case False
    then show ?thesis
      using "1.prems" by (subst gen_loop.simps) simp
  qed
qed

text \<open>
  Claim C10 says that building a chromosome from a non-empty catalog of fewer than three
  items never indexes past the catalog's end. The code does: only the empty catalog is
  guarded, so for every catalog of one or two items and every generator the read of
  \<^verbatim>\<open>box_list[i]\<close> at \<open>i = len(box_list)\<close> is reached and the construction ends in
  IndexError.
\<close>

theorem gen_chromosome_short_catalog:
  assumes "box_list \<noteq> []" and "length box_list < 3"
  shows "gen_chromosome box_list g = Inl IndexError"
proof -
  obtain bl g' where sh: "shuffle box_list g = (bl, g')"
    by (cases "shuffle box_list g")
  then have "length bl = length box_list"
    using length_shuffle [of box_list g] by simp
  then have "gen_loop 0 bl [] = Inl IndexError"
    using assms(2) by (simp add: gen_loop_short)
  then show ?thesis
    using assms(1) sh by (simp add: gen_chromosome_def)
qed

text \<open>The one-item catalog and a two-item catalog, with the generator that draws 0.\<close>

theorem gen_chromosome_short_catalog_witness:
  "[box_a] \<noteq> [] \<and> length [box_a] < 3 \<and> gen_chromosome [box_a] (sconst 0) = Inl IndexError
   \<and> Chromosome empty_store [box_a, box_b] (sconst 0) = Inl IndexError"
  using gen_chromosome_short_catalog [of "[box_a]" "sconst 0"]
    gen_chromosome_short_catalog [of "[box_a, box_b]" "sconst 0"]
  by (simp add: Chromosome_def)

section \<open>Mutation\<close>

lemma mutant_prob_zero: "mutant_prob 0 g = (shd g mod 11 = 0, stl g)"
  by (simp add: mutant_prob_def randint_def Let_def)

lemma mutant_prob_one: "mutant_prob 1 g = (True, stl g)"
proof -
  have "shd g mod 11 \<le> 10"
    by simp
  then have "(of_nat (shd g mod 11) :: rat) \<le> 10"
    by (metis of_nat_le_iff of_nat_numeral)
  then show ?thesis
    by (simp add: mutant_prob_def randint_def Let_def)
qed


lemma choice_Inr: "xs \<noteq> [] \<Longrightarrow> \<exists>x. choice xs g = Inr (x, stl g) \<and> x \<in> set xs"
  by (simp add: choice_def)

lemma choice_cases:
  obtains "xs = []" "choice xs g = Inl IndexError"
  | x where "xs \<noteq> []" "choice xs g = Inr (x, stl g)" "x \<in> set xs"
  using choice_Inr [of xs g] by (cases "xs = []") (auto simp: choice_def)

lemma mutate_pool_filter:
  "distinct bxs \<Longrightarrow> mutate_pool bs bxs = filter (\<lambda>b. b \<notin> set bs) bxs"
proof (induction bs arbitrary: bxs)
  case Nil
  then show ?case by (simp add: mutate_pool_def)
next
  case (Cons i bs)
  let ?bxs' = "if i \<in> set bxs then remove1 i bxs else bxs"
  have "removeAll i bxs = filter (\<lambda>b. b \<noteq> i) bxs"
    by (induction bxs) auto
  moreover have "i \<notin> set bxs \<Longrightarrow> removeAll i bxs = bxs"
    by simp
  ultimately have step: "?bxs' = filter (\<lambda>b. b \<noteq> i) bxs"
    using Cons.prems by (auto simp: distinct_remove1_removeAll)
  have "distinct ?bxs'"
    using Cons.prems by simp
  then have "mutate_pool bs ?bxs' = filter (\<lambda>b. b \<notin> set bs) ?bxs'"
    by (rule Cons.IH)
  moreover have "mutate_pool (i # bs) bxs = mutate_pool bs ?bxs'"
    by (simp add: mutate_pool_def)
  ultimately show ?case
    by (simp only: step) (auto intro: filter_cong)
qed

lemma mutate_loop_invariant:
  assumes "mutate_loop j p baby pool g = Inr (bs, pool', g')"
    and "distinct baby" and "distinct pool" and "set baby \<inter> set pool = {}"
  shows "distinct bs \<and> distinct pool' \<and> set bs \<inter> set pool' = {}
    \<and> length bs = length baby
    \<and> (\<forall>k<length baby. bs ! k = baby ! k \<or> bs ! k \<in> set pool)"
  using assms
proof (induction j p baby pool g rule: mutate_loop.induct)
  case (1 j p baby pool g)
  show ?case
  proof (cases "j < length baby")
    case False
    then have "bs = baby" "pool' = pool"
      using "1.prems"(1) by (subst (asm) mutate_loop.simps, simp)+
    then show ?thesis
      using "1.prems" by simp
  next
    case inrange: True
    show ?thesis
    proof (cases "fst (mutant_prob p g)")
      case False
      then have "mutate_loop (Suc j) p baby pool (snd (mutant_prob p g)) = Inr (bs, pool', g')"
        using "1.prems"(1) inrange by (subst (asm) mutate_loop.simps) simp
      then show ?thesis
        using "1.IH"(2) [OF inrange False] "1.prems" by blast
    next
      case mut: True
      show ?thesis
      proof (cases rule: choice_cases [of pool "snd (mutant_prob p g)"])
        case 1
        then have "mutate_loop j p baby pool g = Inl IndexError"
          using inrange mut by (subst mutate_loop.simps) simp
        then show ?thesis
          using "1.prems"(1) by simp
      next
        case (2 b)
        let ?g2 = "stl (snd (mutant_prob p g))"
        have rec: "mutate_loop (Suc j) p (baby[j := b]) (remove1 b pool) ?g2 = Inr (bs, pool', g')"
          using "1.prems"(1) inrange mut 2 by (subst (asm) mutate_loop.simps) simp
        have b_new: "b \<notin> set baby"
          using 2(3) "1.prems"(4) by blast
        have d1: "distinct (baby[j := b])"
          using "1.prems"(2) b_new inrange by (simp add: distinct_list_update)
        have d2: "distinct (remove1 b pool)"
          using "1.prems"(3) by simp
        have "set (baby[j := b]) \<subseteq> insert b (set baby)"
          by (rule set_update_subset_insert)
        moreover have "set (remove1 b pool) = set pool - {b}"
          using "1.prems"(3) by simp
        ultimately have d3: "set (baby[j := b]) \<inter> set (remove1 b pool) = {}"
          using "1.prems"(4) by blast
        have ih: "distinct bs \<and> distinct pool' \<and> set bs \<inter> set pool' = {}
            \<and> length bs = length (baby[j := b])
            \<and> (\<forall>k<length (baby[j := b]). bs ! k = baby[j := b] ! k \<or> bs ! k \<in> set (remove1 b pool))"
          using "1.IH"(1) [OF inrange mut 2(2) refl rec d1 d2 d3] .
        have "\<forall>k<length baby. bs ! k = baby ! k \<or> bs ! k \<in> set pool"
        proof (intro allI impI)
          fix k assume k: "k < length baby"
          then have "bs ! k = baby[j := b] ! k \<or> bs ! k \<in> set (remove1 b pool)"
            using ih by simp
          then show "bs ! k = baby ! k \<or> bs ! k \<in> set pool"
            using 2(3) k by (cases "k = j") (auto dest: notin_set_remove1)
        qed
        then show ?thesis
          using ih by simp
      qed
    qed
  qed
qed

lemma mutate_loop_succeeds:
  "length baby - j \<le> length pool \<Longrightarrow> \<exists>r. mutate_loop j p baby pool g = Inr r"
proof (induction j p baby pool g rule: mutate_loop.induct)
  case (1 j p baby pool g)
  show ?case
  proof (cases "j < length baby")
    case False
    then show ?thesis
      by (subst mutate_loop.simps) simp
  next
    case inrange: True
    show ?thesis
    proof (cases "fst (mutant_prob p g)")
      case False
      have "\<exists>r. mutate_loop (Suc j) p baby pool (snd (mutant_prob p g)) = Inr r"
        using "1.IH"(2) [OF inrange False] "1.prems" by simp
      then show ?thesis
        using inrange False by (subst mutate_loop.simps) simp
    next
      case mut: True
      have "pool \<noteq> []"
        using inrange "1.prems" by auto
      then obtain b where b: "choice pool (snd (mutant_prob p g)) = Inr (b, stl (snd (mutant_prob p g)))"
          "b \<in> set pool"
        using choice_Inr by blast
      have "length (baby[j := b]) - Suc j \<le> length (remove1 b pool)"
        using "1.prems" b(2) inrange by (simp add: length_remove1)
      then have "\<exists>r. mutate_loop (Suc j) p (baby[j := b]) (remove1 b pool)
          (stl (snd (mutant_prob p g))) = Inr r"
        by (rule "1.IH"(1) [OF inrange mut b(1) refl])
      then show ?thesis
        using inrange mut b(1) by (subst mutate_loop.simps) simp
    qed
  qed
qed


lemma mutate_Inr:
  assumes "mutate s baby p bxs g = Inr (s', r, g')"
  shows "r = baby
    \<and> (\<exists>pool'. mutate_loop 0 p (boxes (objs s baby)) (mutate_pool (boxes (objs s baby)) bxs) g
          = Inr (boxes (objs s' baby), pool', g'))"
  using assms by (auto simp: mutate_def Let_def split: sum.splits)

lemma mutate_Inr_iff:
  "(\<exists>r. mutate s baby p bxs g = Inr r)
    \<longleftrightarrow> (\<exists>r. mutate_loop 0 p (boxes (objs s baby)) (mutate_pool (boxes (objs s baby)) bxs) g = Inr r)"
  by (auto simp: mutate_def Let_def split: sum.splits)

text \<open>
  Claim C9. Let the child's genes be pairwise distinct and the catalog's items pairwise
  distinct. Then, for every probability and every generator: if the catalog holds at
  least as many items outside the child as the child has genes, \<open>mutate\<close> returns (the
  pool never runs empty); and whenever \<open>mutate\<close> returns, it returns the same object, of
  the same length, with pairwise distinct genes, each gene being either the old gene at
  its position or a catalog item that the child did not hold.
\<close>

theorem mutate_keeps_genes_distinct:
  assumes "distinct (boxes (objs s baby))" and "distinct bxs"
  shows "(length (boxes (objs s baby))
            \<le> length (filter (\<lambda>b. b \<notin> set (boxes (objs s baby))) bxs)
          \<longrightarrow> (\<exists>s' g'. mutate s baby p bxs g = Inr (s', baby, g')))
    \<and> (\<forall>s' r g'. mutate s baby p bxs g = Inr (s', r, g') \<longrightarrow>
          r = baby \<and> distinct (boxes (objs s' r))
          \<and> length (boxes (objs s' r)) = length (boxes (objs s baby))
          \<and> (\<forall>k<length (boxes (objs s baby)).
                boxes (objs s' r) ! k = boxes (objs s baby) ! k
                \<or> (boxes (objs s' r) ! k \<in> set bxs
                    \<and> boxes (objs s' r) ! k \<notin> set (boxes (objs s baby)))))"
proof -
  let ?old = "boxes (objs s baby)"
  let ?pool = "mutate_pool ?old bxs"
  have pool: "?pool = filter (\<lambda>b. b \<notin> set ?old) bxs"
    using assms(2) by (rule mutate_pool_filter)
  have dpool: "distinct ?pool" and disj: "set ?old \<inter> set ?pool = {}"
    using assms(2) by (auto simp: pool)
  have returns: "\<exists>s' g'. mutate s baby p bxs g = Inr (s', baby, g')"
    if "length ?old \<le> length (filter (\<lambda>b. b \<notin> set ?old) bxs)"
  proof -
    have "length ?old - 0 \<le> length ?pool"
      using that by (simp add: pool)
    then have "\<exists>r. mutate_loop 0 p ?old ?pool g = Inr r"
      by (rule mutate_loop_succeeds)
    then obtain s' r g' where "mutate s baby p bxs g = Inr (s', r, g')"
      using mutate_Inr_iff [of s baby p bxs g] by auto
    then show ?thesis
      using mutate_Inr by blast
  qed
  have result: "r = baby \<and> distinct (boxes (objs s' r))
          \<and> length (boxes (objs s' r)) = length ?old
          \<and> (\<forall>k<length ?old. boxes (objs s' r) ! k = ?old ! k
                \<or> (boxes (objs s' r) ! k \<in> set bxs \<and> boxes (objs s' r) ! k \<notin> set ?old))"
    if "mutate s baby p bxs g = Inr (s', r, g')" for s' r g'
  proof -
    from mutate_Inr [OF that] obtain pool' where r: "r = baby"
      and loop: "mutate_loop 0 p ?old ?pool g = Inr (boxes (objs s' baby), pool', g')"
      by blast
    note inv = mutate_loop_invariant [OF loop assms(1) dpool disj]
    have "\<forall>k<length ?old. boxes (objs s' baby) ! k = ?old ! k
                \<or> (boxes (objs s' baby) ! k \<in> set bxs \<and> boxes (objs s' baby) ! k \<notin> set ?old)"
      using inv by (auto simp: pool)
    then show ?thesis
      using inv r by simp
  qed
  show ?thesis
    using returns result by blast
qed

lemma mutate_loop_zero_sample:
  "mutate_loop 0 0 [box_a, box_b, box_c] [box_d, box_e, box_f, box_g] (0 ## 0 ## 7 ## 7 ## g)
     = Inr ([box_d, box_b, box_c], [box_e, box_f, box_g], g)"
  by (simp add: mutate_loop.simps mutant_prob_zero choice_def)

lemma mutate_pool_sample:
  "mutate_pool [box_a, box_b, box_c] catalog = [box_d, box_e, box_f, box_g]"
  by (simp add: mutate_pool_def catalog_def box_defs)

lemma boxes_sample_0: "boxes (objs sample_store 0) = [box_a, box_b, box_c]"
  by (simp add: sample_store_def sample_abc_def sample_child_def sample_cdf_def)

text \<open>
  Claim C2 says that \<open>mutate\<close> with probability 0 never changes a gene. The code does
  change one: \<open>mutant_prob 0\<close> is true whenever \<^verbatim>\<open>randint(0,10)\<close> draws 0 (lemma
  \<open>mutant_prob_zero\<close>). Here the child a, b, c is mutated with probability 0 over the
  catalog; the first draw is 0, the pool's first item d replaces gene 0, and the next two
  draws are 7.
\<close>

theorem mutate_probability_zero_changes_gene:
  "boxes (objs sample_store 0) = [box_a, box_b, box_c]
   \<and> (case mutate sample_store 0 0 catalog (0 ## 0 ## 7 ## 7 ## g) of
         Inl e \<Rightarrow> False
       | Inr (s', r, g') \<Rightarrow> r = 0 \<and> boxes (objs s' r) = [box_d, box_b, box_c] \<and> g' = g)"
  by (simp add: mutate_def boxes_sample_0 mutate_pool_sample mutate_loop_zero_sample)


lemma mutant_prob_reference: "mutant_prob (3 / 10) g = (shd g mod 11 \<le> 3, stl g)"
proof -
  have "(of_nat (shd g mod 11) \<le> (3::rat)) \<longleftrightarrow> shd g mod 11 \<le> 3"
    by (metis of_nat_le_iff of_nat_numeral)
  then show ?thesis
    by (simp add: mutant_prob_def randint_def Let_def)
qed

lemma distinct_catalog: "distinct catalog"
  by (simp add: catalog_def box_defs)

lemma mutate_reference_sample:
  "mutate sample_store 0 (3 / 10) catalog (0 ## 0 ## sconst 7)
     = Inr (sample_store\<lparr>objs := (objs sample_store)
              (0 := (objs sample_store 0)\<lparr>boxes := [box_d, box_b, box_c]\<rparr>)\<rparr>, 0, sconst 7)"
  by (simp add: mutate_def boxes_sample_0 mutate_pool_sample mutate_loop.simps
      mutant_prob_reference choice_def)

text \<open>
  The theorem at the sample child a, b, c with the reference probability: the first
  gene is replaced by d, the genes stay distinct.
\<close>

theorem mutate_keeps_genes_distinct_witness:
  "distinct (boxes (objs sample_store 0)) \<and> distinct catalog
   \<and> length (boxes (objs sample_store 0))
       \<le> length (filter (\<lambda>b. b \<notin> set (boxes (objs sample_store 0))) catalog)
   \<and> (case mutate sample_store 0 (3 / 10) catalog (0 ## 0 ## sconst 7) of
         Inl e \<Rightarrow> False
       | Inr (s', r, g') \<Rightarrow>
           r = 0 \<and> boxes (objs s' r) = [box_d, box_b, box_c] \<and> distinct (boxes (objs s' r)))"
proof -
  have d: "distinct (boxes (objs sample_store 0))"
    by (simp add: boxes_sample_0 box_defs)
  have enough: "length (boxes (objs sample_store 0))
       \<le> length (filter (\<lambda>b. b \<notin> set (boxes (objs sample_store 0))) catalog)"
    by (simp add: boxes_sample_0 catalog_def box_defs)
  show ?thesis
    using mutate_keeps_genes_distinct [OF d distinct_catalog, of "3 / 10" "0 ## 0 ## sconst 7"]
      d enough
    by (simp add: distinct_catalog mutate_reference_sample)
qed

text \<open>
  The second half of claim C2: with probability 1 every position is replaced, by a
  catalog item the child did not hold, whenever the pool lasts.
\<close>

lemma mutate_loop_one:
  assumes "mutate_loop j 1 baby pool g = Inr (bs, pool', g')"
  shows "length bs = length baby
    \<and> (\<forall>k<length baby. if k < j then bs ! k = baby ! k else bs ! k \<in> set pool)"
  using assms
proof (induction j "1 :: rat" baby pool g rule: mutate_loop.induct)
  case (1 j baby pool g)
  show ?case
  proof (cases "j < length baby")
    case False
    then have "bs = baby"
      using "1.prems" by (subst (asm) mutate_loop.simps) simp
    then show ?thesis
      using False by simp
  next
    case inrange: True
    have mut: "fst (mutant_prob 1 g)"
      by (simp add: mutant_prob_one)
    show ?thesis
    proof (cases rule: choice_cases [of pool "snd (mutant_prob 1 g)"])
      case 1
      then have "mutate_loop j 1 baby pool g = Inl IndexError"
        using inrange mut by (subst mutate_loop.simps) simp
      then show ?thesis
        using "1.prems" by simp
    next
      case (2 b)
      have rec: "mutate_loop (Suc j) 1 (baby[j := b]) (remove1 b pool)
          (stl (snd (mutant_prob 1 g))) = Inr (bs, pool', g')"
        using "1.prems" inrange mut 2 by (subst (asm) mutate_loop.simps) simp
      have ih: "length bs = length (baby[j := b])
          \<and> (\<forall>k<length (baby[j := b]).
                if k < Suc j then bs ! k = baby[j := b] ! k else bs ! k \<in> set (remove1 b pool))"
        using "1.hyps"(1) [OF inrange mut 2(2) refl rec] .
      have "\<forall>k<length baby. if k < j then bs ! k = baby ! k else bs ! k \<in> set pool"
      proof (intro allI impI)
        fix k assume k: "k < length baby"
        then have *: "if k < Suc j then bs ! k = baby[j := b] ! k else bs ! k \<in> set (remove1 b pool)"
          using ih by simp
        show "if k < j then bs ! k = baby ! k else bs ! k \<in> set pool"
        proof (cases "k < j")
          case True
          then show ?thesis using * by simp
        next
          case False
          then show ?thesis
            using * 2(3) k set_remove1_subset [of b pool] by (cases "k = j") auto
        qed
      qed
      then show ?thesis
        using ih by simp
    qed
  qed
qed

lemma mutate_probability_one_replaces_all:
  assumes "mutate s baby 1 bxs g = Inr (s', r, g')" and "distinct bxs"
  shows "r = baby \<and> length (boxes (objs s' r)) = length (boxes (objs s baby))
    \<and> (\<forall>k<length (boxes (objs s baby)).
          boxes (objs s' r) ! k \<in> set bxs \<and> boxes (objs s' r) ! k \<notin> set (boxes (objs s baby)))"
proof -
  from mutate_Inr [OF assms(1)] obtain pool' where r: "r = baby"
    and loop: "mutate_loop 0 1 (boxes (objs s baby)) (mutate_pool (boxes (objs s baby)) bxs) g
        = Inr (boxes (objs s' baby), pool', g')"
    by blast
  show ?thesis
    using mutate_loop_one [OF loop] r by (auto simp: mutate_pool_filter [OF assms(2)])
qed

text \<open>
  With probability 0 the genes stay as they are exactly on the runs whose draws are all
  non-zero modulo 11.
\<close>

lemma mutate_loop_zero_quiet:
  assumes "\<forall>k<length baby - j. (g !! k) mod 11 \<noteq> 0"
  shows "mutate_loop j 0 baby pool g = Inr (baby, pool, sdrop (length baby - j) g)"
  using assms
proof (induction j "0 :: rat" baby pool g rule: mutate_loop.induct)
  case (1 j baby pool g)
  show ?case
  proof (cases "j < length baby")
    case False
    then show ?thesis
      by (subst mutate_loop.simps) simp
  next
    case inrange: True
    from "1.prems" have "0 < length baby - j \<longrightarrow> (g !! 0) mod 11 \<noteq> 0"
      by blast
    then have "shd g mod 11 \<noteq> 0"
      using inrange by simp
    then have quiet: "\<not> fst (mutant_prob 0 g)"
      by (simp add: mutant_prob_zero)
    have "\<forall>k<length baby - Suc j. (stl g !! k) mod 11 \<noteq> 0"
    proof (intro allI impI)
      fix k assume "k < length baby - Suc j"
      then have "Suc k < length baby - j" by simp
      then have "(g !! Suc k) mod 11 \<noteq> 0"
        using "1.prems" by blast
      then show "(stl g !! k) mod 11 \<noteq> 0" by simp
    qed
    then have "mutate_loop (Suc j) 0 baby pool (snd (mutant_prob 0 g))
        = Inr (baby, pool, sdrop (length baby - Suc j) (snd (mutant_prob 0 g)))"
      using "1.hyps"(2) [OF inrange quiet] by (simp add: mutant_prob_zero)
    moreover have "length baby - j = Suc (length baby - Suc j)"
      using inrange by simp
    then have "sdrop (length baby - Suc j) (stl g) = sdrop (length baby - j) g"
      by (metis sdrop.simps(2))
    ultimately show ?thesis
      using inrange quiet by (subst mutate_loop.simps) (simp add: mutant_prob_zero)
  qed
qed

section \<open>Crossover\<close>

text \<open>
  The genes of a parent whose items carry different names are, once sorted by name, in
  strictly increasing order of name. That is what keeps the fallback of the loop from
  ever placing an item twice: if the gene of one parent at position \<open>i\<close> is already in
  the child, it was placed from the other parent at an earlier position, and then the
  other parent's gene at \<open>i\<close> cannot have been placed before.
\<close>

lemma strict_sorted_names:
  "distinct (map name bs) \<Longrightarrow> sorted_wrt (<) (map name (sort_key name bs))"
proof -
  assume d: "distinct (map name bs)"
  have "mset (map name (sort_key name bs)) = mset (map name bs)"
    by simp
  then have "distinct (map name (sort_key name bs))"
    using d by (metis mset_eq_imp_distinct_iff)
  then show ?thesis
    by (simp add: strict_sorted_iff)
qed

lemma crossover_no_clash:
  assumes s1: "sorted_wrt (<) (map name t1)" and s2: "sorted_wrt (<) (map name t2)"
    and i1: "i < length t1" and i2: "i < length t2" and len: "length baby = i"
    and pos: "\<forall>k<i. baby ! k = t1 ! k \<or> baby ! k = t2 ! k"
    and hit: "t1 ! i \<in> set baby"
  shows "t2 ! i \<notin> set baby"
proof
  assume "t2 ! i \<in> set baby"
  then obtain k where k: "k < i" "baby ! k = t2 ! i"
    using len by (auto simp: in_set_conv_nth)
  from hit obtain j where j: "j < i" "baby ! j = t1 ! i"
    using len by (auto simp: in_set_conv_nth)
  have lt1: "name (t1 ! a) < name (t1 ! i)" if "a < i" for a
    using sorted_wrt_nth_less [OF s1, of a i] that i1 by simp
  have lt2: "name (t2 ! a) < name (t2 ! i)" if "a < i" for a
    using sorted_wrt_nth_less [OF s2, of a i] that i2 by simp
  have "baby ! j \<noteq> t1 ! j"
    using lt1 [OF j(1)] j(2) by auto
  then have bj: "baby ! j = t2 ! j"
    using pos j(1) by blast
  have "baby ! k \<noteq> t2 ! k"
    using lt2 [OF k(1)] k(2) by auto
  then have bk: "baby ! k = t1 ! k"
    using pos k(1) by blast
  have "name (t2 ! i) = name (t1 ! k)"
    using k(2) bk by simp
  moreover have "name (t1 ! k) < name (t1 ! i)"
    by (rule lt1 [OF k(1)])
  moreover have "name (t1 ! i) = name (t2 ! j)"
    using j(2) bj by simp
  moreover have "name (t2 ! j) < name (t2 ! i)"
    by (rule lt2 [OF j(1)])
  ultimately show False
    by simp
qed

lemma crossover_loop_invariant:
  assumes "crossover_loop i t1 t2 baby g = Inr (bs, g')"
    and "sorted_wrt (<) (map name t1)" and "sorted_wrt (<) (map name t2)"
    and "length baby = i" and "\<forall>k<i. baby ! k = t1 ! k \<or> baby ! k = t2 ! k"
    and "distinct baby"
  shows "distinct bs \<and> length bs = max i (length t1)
    \<and> (\<forall>k<length bs. bs ! k = t1 ! k \<or> bs ! k = t2 ! k)"
  using assms
proof (induction i t1 t2 baby g rule: crossover_loop.induct)
  case (1 i t1 t2 baby g)
  note s1 = "1.prems"(2) and s2 = "1.prems"(3) and len = "1.prems"(4)
    and pos = "1.prems"(5) and dist = "1.prems"(6)
  show ?case
  proof (cases "i < length t1")
    case False
    then have "bs = baby"
      using "1.prems"(1) by (subst (asm) crossover_loop.simps) simp
    then show ?thesis
      using False len pos dist by (simp add: max_def)
  next
    case i1: True
    obtain which g1 where draw: "randint 0 1 g = (which, g1)"
      by (cases "randint 0 1 g")
    have step: "\<And>b. b \<notin> set baby \<Longrightarrow> b = t1 ! i \<or> b = t2 ! i \<Longrightarrow>
        length (baby @ [b]) = Suc i
        \<and> (\<forall>k<Suc i. (baby @ [b]) ! k = t1 ! k \<or> (baby @ [b]) ! k = t2 ! k)
        \<and> distinct (baby @ [b])"
      using len pos dist by (auto simp: nth_append less_Suc_eq)
    have fin: "max (Suc i) (length t1) = max i (length t1)"
      using i1 by simp
    show ?thesis
    proof (cases "which = 0")
      case w0: True
      show ?thesis
      proof (cases "t1 ! i \<in> set baby")
        case hit: True
        show ?thesis
        proof (cases "i < length t2")
          case i2: True
          have rec: "crossover_loop (Suc i) t1 t2 (baby @ [t2 ! i]) g1 = Inr (bs, g')"
            using "1.prems"(1) i1 draw w0 hit i2 by (subst (asm) crossover_loop.simps) simp
          have "t2 ! i \<notin> set baby"
            using crossover_no_clash [OF s1 s2 i1 i2 len pos hit] .
          then have inv: "length (baby @ [t2 ! i]) = Suc i
            \<and> (\<forall>k<Suc i. (baby @ [t2 ! i]) ! k = t1 ! k \<or> (baby @ [t2 ! i]) ! k = t2 ! k)
            \<and> distinct (baby @ [t2 ! i])"
            by (rule step) simp
          show ?thesis
            using "1.IH"(1) [OF i1 refl draw [symmetric] w0 hit i2 rec s1 s2] inv fin by simp
        next
          case False
          then have "crossover_loop i t1 t2 baby g = Inl IndexError"
            using i1 draw w0 hit by (subst crossover_loop.simps) simp
          then show ?thesis
            using "1.prems"(1) by simp
        qed
      next
        case miss: False
        have rec: "crossover_loop (Suc i) t1 t2 (baby @ [t1 ! i]) g1 = Inr (bs, g')"
          using "1.prems"(1) i1 draw w0 miss by (subst (asm) crossover_loop.simps) simp
        have inv: "length (baby @ [t1 ! i]) = Suc i
            \<and> (\<forall>k<Suc i. (baby @ [t1 ! i]) ! k = t1 ! k \<or> (baby @ [t1 ! i]) ! k = t2 ! k)
            \<and> distinct (baby @ [t1 ! i])"
          using miss by (rule step) simp
        show ?thesis
          using "1.IH"(2) [OF i1 refl draw [symmetric] w0 miss rec s1 s2] inv fin by simp
      qed
    next
      case w1: False
      show ?thesis
      proof (cases "i < length t2")
        case i2: True
        have pos': "\<forall>k<i. baby ! k = t2 ! k \<or> baby ! k = t1 ! k"
          using pos by blast
        show ?thesis
        proof (cases "t2 ! i \<in> set baby")
          case hit: True
          have rec: "crossover_loop (Suc i) t1 t2 (baby @ [t1 ! i]) g1 = Inr (bs, g')"
            using "1.prems"(1) i1 draw w1 hit i2 by (subst (asm) crossover_loop.simps) simp
          have "t1 ! i \<notin> set baby"
            using crossover_no_clash [OF s2 s1 i2 i1 len pos' hit] .
          then have inv: "length (baby @ [t1 ! i]) = Suc i
            \<and> (\<forall>k<Suc i. (baby @ [t1 ! i]) ! k = t1 ! k \<or> (baby @ [t1 ! i]) ! k = t2 ! k)
            \<and> distinct (baby @ [t1 ! i])"
            by (rule step) simp
          show ?thesis
            using "1.IH"(3) [OF i1 refl draw [symmetric] w1 i2 hit rec s1 s2] inv fin by simp
        next
          case miss: False
          have rec: "crossover_loop (Suc i) t1 t2 (baby @ [t2 ! i]) g1 = Inr (bs, g')"
            using "1.prems"(1) i1 draw w1 miss i2 by (subst (asm) crossover_loop.simps) simp
          have inv: "length (baby @ [t2 ! i]) = Suc i
            \<and> (\<forall>k<Suc i. (baby @ [t2 ! i]) ! k = t1 ! k \<or> (baby @ [t2 ! i]) ! k = t2 ! k)
            \<and> distinct (baby @ [t2 ! i])"
            using miss by (rule step) simp
          show ?thesis
            using "1.IH"(4) [OF i1 refl draw [symmetric] w1 i2 miss rec s1 s2] inv fin by simp
        qed
      next
        case False
        then have "crossover_loop i t1 t2 baby g = Inl IndexError"
          using i1 draw w1 by (subst crossover_loop.simps) simp
        then show ?thesis
          using "1.prems"(1) by simp
      qed
    qed
  qed
qed


lemma crossover_loop_succeeds:
  "length t1 \<le> length t2 \<Longrightarrow> \<exists>r. crossover_loop i t1 t2 baby g = Inr r"
proof (induction i t1 t2 baby g rule: crossover_loop.induct)
  case (1 i t1 t2 baby g)
  show ?case
  proof (cases "i < length t1")
    case False
    then show ?thesis
      by (subst crossover_loop.simps) simp
  next
    case i1: True
    then have i2: "i < length t2"
      using "1.prems" by simp
    obtain which g1 where draw: "randint 0 1 g = (which, g1)"
      by (cases "randint 0 1 g")
    note ih = "1.IH" [OF i1 refl draw [symmetric]]
    consider (a) "which = 0" "t1 ! i \<in> set baby" | (b) "which = 0" "t1 ! i \<notin> set baby"
      | (c) "which \<noteq> 0" "t2 ! i \<in> set baby" | (d) "which \<noteq> 0" "t2 ! i \<notin> set baby"
      by blast
    then show ?thesis
    proof cases
      case a
      then show ?thesis
        using ih(1) [OF a i2 "1.prems"] i1 i2 draw by (subst crossover_loop.simps) simp
    next
      case b
      then show ?thesis
        using ih(2) [OF b "1.prems"] i1 i2 draw by (subst crossover_loop.simps) simp
    next
      case c
      then show ?thesis
        using ih(3) [OF c(1) i2 c(2) "1.prems"] i1 i2 draw by (subst crossover_loop.simps) simp
    next
      case d
      then show ?thesis
        using ih(4) [OF d(1) i2 d(2) "1.prems"] i1 i2 draw by (subst crossover_loop.simps) simp
    qed
  qed
qed

lemma new_chromosome_Nil: "new_chromosome [] = Inr no_genes"
  by (simp add: new_chromosome_def calc_fitness_def sum_weight_def sum_value_def no_genes_def)

lemma Chromosome_empty:
  "Chromosome s [] g =
     Inr (s\<lparr>objs := (objs s)(next_ref s := no_genes), next_ref := Suc (next_ref s)\<rparr>,
          next_ref s, [], g)"
  by (simp add: Chromosome_def gen_chromosome_def new_chromosome_Nil)

lemma boxes_no_genes: "boxes no_genes = []"
  by (simp add: no_genes_def)

lemma crossover_same:
  "dupe_check (objs s x) (objs s y) \<Longrightarrow> crossover s x y g = Inr (s, x, g)"
  by (simp add: crossover_def)

lemma crossover_bred:
  assumes "\<not> dupe_check (objs s x) (objs s y)"
  shows "crossover s x y g =
    (case crossover_loop 0
            (sort_key name (boxes (((objs s)(next_ref s := no_genes)) x)))
            (sort_key name (boxes (((objs s)(next_ref s := no_genes)) y))) [] g of
       Inl e \<Rightarrow> Inl e
     | Inr (bs, g2) \<Rightarrow>
         Inr (\<lparr>objs = (objs s)(next_ref s := no_genes\<lparr>boxes := bs\<rparr>),
               next_ref = Suc (next_ref s)\<rparr>, next_ref s, g2))"
proof -
  have "crossover s x y g =
      (case Chromosome s [] g of
         Inl e \<Rightarrow> Inl e
       | Inr (s1, baby, temp, g1) \<Rightarrow>
           (let temp1 = sort_key name (boxes (objs s1 x));
                temp2 = sort_key name (boxes (objs s1 y))
            in case crossover_loop 0 temp1 temp2 (boxes (objs s1 baby)) g1 of
                 Inl e \<Rightarrow> Inl e
               | Inr (bs, g2) \<Rightarrow>
                   Inr (s1\<lparr>objs := (objs s1)(baby := (objs s1 baby)\<lparr>boxes := bs\<rparr>)\<rparr>,
                        baby, g2)))"
    using assms unfolding crossover_def by (rule if_not_P)
  then show ?thesis
    unfolding Chromosome_empty Let_def
    by (simp add: boxes_no_genes split: sum.splits)
qed

lemma crossover_child_distinct:
  assumes dx: "distinct (map name (boxes (objs s x)))"
    and dy: "distinct (map name (boxes (objs s y)))"
    and run: "crossover s x y g = Inr (s', c, g')"
  shows "distinct (boxes (objs s' c))"
proof (cases "dupe_check (objs s x) (objs s y)")
  case True
  then have "s' = s" "c = x"
    using run by (simp_all add: crossover_same)
  then show ?thesis
    using dx by (simp add: distinct_map)
next
  case False
  let ?h = "(objs s)(next_ref s := no_genes)"
  let ?t1 = "sort_key name (boxes (?h x))"
  let ?t2 = "sort_key name (boxes (?h y))"
  obtain bs where loop: "crossover_loop 0 ?t1 ?t2 [] g = Inr (bs, g')"
    and child: "boxes (objs s' c) = bs"
    using run unfolding crossover_bred [OF False]
    by (auto split: sum.splits)
  have "distinct (map name (boxes (?h x)))"
    using dx by (cases "x = next_ref s") (simp_all add: boxes_no_genes)
  then have s1: "sorted_wrt (<) (map name ?t1)"
    by (rule strict_sorted_names)
  have "distinct (map name (boxes (?h y)))"
    using dy by (cases "y = next_ref s") (simp_all add: boxes_no_genes)
  then have s2: "sorted_wrt (<) (map name ?t2)"
    by (rule strict_sorted_names)
  have "distinct bs"
    using crossover_loop_invariant [OF loop s1 s2] by simp
  then show ?thesis
    using child by simp
qed

lemma distinct_names_of_catalog:
  assumes "distinct (map name cat)" and "set bs \<subseteq> set cat" and "distinct bs"
  shows "distinct (map name bs)"
proof -
  have "inj_on name (set cat)"
    using assms(1) by (simp add: distinct_map)
  then have "inj_on name (set bs)"
    using assms(2) by (rule inj_on_subset)
  then show ?thesis
    using assms(3) by (simp add: distinct_map)
qed

lemma crossover_returns:
  assumes "x < next_ref s" and "y < next_ref s"
    and "length (boxes (objs s x)) = length (boxes (objs s y))"
  shows "\<exists>s' c g'. crossover s x y g = Inr (s', c, g')"
proof (cases "dupe_check (objs s x) (objs s y)")
  case True
  then show ?thesis by (simp add: crossover_same)
next
  case False
  let ?h = "(objs s)(next_ref s := no_genes)"
  let ?t1 = "sort_key name (boxes (?h x))"
  let ?t2 = "sort_key name (boxes (?h y))"
  have "length ?t1 \<le> length ?t2"
    using assms by simp
  then obtain bs g' where "crossover_loop 0 ?t1 ?t2 [] g = Inr (bs, g')"
    using crossover_loop_succeeds [of ?t1 ?t2 0 "[]" g] by auto
  then show ?thesis
    unfolding crossover_bred [OF False] by simp
qed

text \<open>
  Claim C4, amended. For every pair of parents whose genes are duplicate-free and drawn
  from a catalog of distinctly named items, and every sequence of coin draws: whenever
  \<open>crossover\<close> returns a child, the child's genes are pairwise distinct; and it does
  return one when the parents are allocated objects with equally many genes.
\<close>

theorem crossover_keeps_genes_distinct:
  assumes "distinct (map name cat)"
    and "set (boxes (objs s x)) \<subseteq> set cat" and "set (boxes (objs s y)) \<subseteq> set cat"
    and "distinct (boxes (objs s x))" and "distinct (boxes (objs s y))"
  shows "(x < next_ref s \<and> y < next_ref s
            \<and> length (boxes (objs s x)) = length (boxes (objs s y))
          \<longrightarrow> (\<exists>s' c g'. crossover s x y g = Inr (s', c, g')))
    \<and> (\<forall>s' c g'. crossover s x y g = Inr (s', c, g') \<longrightarrow> distinct (boxes (objs s' c)))"
proof -
  have dx: "distinct (map name (boxes (objs s x)))"
    using assms(1,2,4) by (rule distinct_names_of_catalog)
  have dy: "distinct (map name (boxes (objs s y)))"
    using assms(1,3,5) by (rule distinct_names_of_catalog)
  show ?thesis
    using crossover_returns [of x s y g] crossover_child_distinct [OF dx dy] by blast
qed

text \<open>
  Claim C4, as stated, fails: there is no pair of different duplicate-free 3-gene parents
  over a catalog of distinctly named items, and no sequence of coin draws, for which
  \<open>crossover\<close> returns a child holding the same item at two positions.
\<close>

theorem crossover_duplicate_counterexample:
  "\<not> (\<exists>cat s x y g s' c g'.
        distinct (map name cat)
        \<and> set (boxes (objs s x)) \<subseteq> set cat \<and> set (boxes (objs s y)) \<subseteq> set cat
        \<and> distinct (boxes (objs s x)) \<and> distinct (boxes (objs s y))
        \<and> length (boxes (objs s x)) = 3 \<and> length (boxes (objs s y)) = 3
        \<and> x \<noteq> y
        \<and> crossover s x y g = Inr (s', c, g')
        \<and> (\<exists>i j. i < j \<and> j < length (boxes (objs s' c))
              \<and> boxes (objs s' c) ! i = boxes (objs s' c) ! j))"
proof
  assume "\<exists>cat s x y g s' c g'.
        distinct (map name cat)
        \<and> set (boxes (objs s x)) \<subseteq> set cat \<and> set (boxes (objs s y)) \<subseteq> set cat
        \<and> distinct (boxes (objs s x)) \<and> distinct (boxes (objs s y))
        \<and> length (boxes (objs s x)) = 3 \<and> length (boxes (objs s y)) = 3
        \<and> x \<noteq> y
        \<and> crossover s x y g = Inr (s', c, g')
        \<and> (\<exists>i j. i < j \<and> j < length (boxes (objs s' c))
              \<and> boxes (objs s' c) ! i = boxes (objs s' c) ! j)"
  then obtain cat s x y g s' c g' i j where cat: "distinct (map name cat)"
    and sub: "set (boxes (objs s x)) \<subseteq> set cat" "set (boxes (objs s y)) \<subseteq> set cat"
    and dist: "distinct (boxes (objs s x))" "distinct (boxes (objs s y))"
    and run: "crossover s x y g = Inr (s', c, g')"
    and twice: "i < j" "j < length (boxes (objs s' c))"
      "boxes (objs s' c) ! i = boxes (objs s' c) ! j"
    by blast
  have "distinct (boxes (objs s' c))"
    using distinct_names_of_catalog [OF cat sub(1) dist(1)]
      distinct_names_of_catalog [OF cat sub(2) dist(2)] run
    by (rule crossover_child_distinct)
  then show False
    using twice by (auto simp: distinct_conv_nth)
qed


text \<open>
  The amended claim at the sample parents a, b, c and c, d, f with the coins 1, 0, 0:
  position 0 takes c from the second parent, position 1 takes b from the first, and at
  position 2 the first parent's c is already placed, so f is taken instead.
\<close>

lemma boxes_sample_2: "boxes (objs sample_store 2) = [box_c, box_d, box_f]"
  by (simp add: sample_store_def sample_abc_def sample_child_def sample_cdf_def)

lemma next_ref_sample: "next_ref sample_store = 3"
  by (simp add: sample_store_def)

lemma crossover_sample:
  "crossover sample_store 0 2 (3 ## 0 ## 0 ## sconst 0) =
     Inr (\<lparr>objs = (objs sample_store)(3 := no_genes\<lparr>boxes := [box_c, box_b, box_f]\<rparr>),
           next_ref = 4\<rparr>, 3, sconst 0)"
proof -
  have nd: "\<not> dupe_check (objs sample_store 0) (objs sample_store 2)"
    by (simp add: dupe_check_def boxes_sample_0 boxes_sample_2 box_defs)
  have t1: "sort_key name [box_a, box_b, box_c] = [box_a, box_b, box_c]"
    and t2: "sort_key name [box_c, box_d, box_f] = [box_c, box_d, box_f]"
    by (simp_all add: box_defs)
  have hx: "boxes (((objs sample_store)(next_ref sample_store := no_genes)) 0)
      = [box_a, box_b, box_c]"
    and hy: "boxes (((objs sample_store)(next_ref sample_store := no_genes)) 2)
      = [box_c, box_d, box_f]"
    by (simp_all add: next_ref_sample boxes_sample_0 boxes_sample_2)
  have loop:
    "crossover_loop 0 [box_a, box_b, box_c] [box_c, box_d, box_f] [] (3 ## 0 ## 0 ## sconst 0)
      = Inr ([box_c, box_b, box_f], sconst 0)"
    by (simp add: crossover_loop.simps randint_def box_defs)
  show ?thesis
    unfolding crossover_bred [OF nd] hx hy t1 t2 loop
    by (simp add: next_ref_sample)
qed

theorem crossover_keeps_genes_distinct_witness:
  "distinct (map name catalog)
   \<and> set (boxes (objs sample_store 0)) \<subseteq> set catalog
   \<and> set (boxes (objs sample_store 2)) \<subseteq> set catalog
   \<and> distinct (boxes (objs sample_store 0)) \<and> distinct (boxes (objs sample_store 2))
   \<and> 0 < next_ref sample_store \<and> 2 < next_ref sample_store
   \<and> length (boxes (objs sample_store 0)) = length (boxes (objs sample_store 2))
   \<and> (case crossover sample_store 0 2 (3 ## 0 ## 0 ## sconst 0) of
         Inl e \<Rightarrow> False
       | Inr (s', c, g') \<Rightarrow>
           c = 3 \<and> boxes (objs s' c) = [box_c, box_b, box_f] \<and> distinct (boxes (objs s' c)))"
proof -
  have cat: "distinct (map name catalog)"
    by (simp add: catalog_def box_defs)
  have sub: "set (boxes (objs sample_store 0)) \<subseteq> set catalog"
    "set (boxes (objs sample_store 2)) \<subseteq> set catalog"
    by (simp_all add: boxes_sample_0 boxes_sample_2 catalog_def)
  have dist: "distinct (boxes (objs sample_store 0))" "distinct (boxes (objs sample_store 2))"
    by (simp_all add: boxes_sample_0 boxes_sample_2 box_defs)
  show ?thesis
    using crossover_keeps_genes_distinct [OF cat sub dist, of "3 ## 0 ## 0 ## sconst 0"]
      cat sub dist
    by (simp add: crossover_sample next_ref_sample boxes_sample_0 boxes_sample_2)
qed

section \<open>The evolution driver\<close>

subsection \<open>The early return\<close>

lemma get_fittest_idem: "get_fittest s (get_fittest s p) = get_fittest s p"
  by (simp add: get_fittest_def sort_key_id_if_sorted)

lemma population_get_fittest_Nil: "population (get_fittest s p) = [] \<longleftrightarrow> population p = []"
  using mset_get_fittest [of s p] by (metis mset_zero_iff)

lemma return_fittest_Inr:
  "population p \<noteq> [] \<Longrightarrow>
     return_fittest s p = Inr (get_fittest s p, hd (population (get_fittest s p)))"
  by (simp add: return_fittest_def Let_def population_get_fittest_Nil hd_conv_nth)

lemma return_fittest_Nil: "population p = [] \<Longrightarrow> return_fittest s p = Inl IndexError"
  by (simp add: return_fittest_def Let_def population_get_fittest_Nil)

lemma fittest_is_best:
  assumes "population p \<noteq> []"
  shows "hd (population (get_fittest s p)) \<in> set (population p)
    \<and> (\<forall>x\<in>set (population p).
          fitness (objs s x) \<le> fitness (objs s (hd (population (get_fittest s p)))))"
proof -
  let ?srt = "population (get_fittest s p)"
  have ne: "?srt \<noteq> []"
    using assms by (simp add: population_get_fittest_Nil)
  have set_eq: "set ?srt = set (population p)"
    using mset_get_fittest [of s p] by (rule mset_eq_setD)
  have "sorted_wrt (\<lambda>x y. fitness (objs s y) \<le> fitness (objs s x)) (hd ?srt # tl ?srt)"
    using sorted_desc_get_fittest [of s p] ne by simp
  then have "\<forall>x\<in>set (tl ?srt). fitness (objs s x) \<le> fitness (objs s (hd ?srt))"
    by simp
  moreover have "set ?srt = insert (hd ?srt) (set (tl ?srt))"
    using ne by (metis list.collapse list.simps(15))
  ultimately have "\<forall>x\<in>set ?srt. fitness (objs s x) \<le> fitness (objs s (hd ?srt))"
    by auto
  then show ?thesis
    using ne set_eq by auto
qed

lemma fittest_fitness_Max:
  assumes "population p \<noteq> []"
  shows "fitness (objs s (hd (population (get_fittest s p))))
    = Max ((\<lambda>x. fitness (objs s x)) ` set (population p))"
proof (rule sym, rule Max_eqI)
  show "finite ((\<lambda>x. fitness (objs s x)) ` set (population p))"
    by simp
  show "y \<le> fitness (objs s (hd (population (get_fittest s p))))"
    if "y \<in> (\<lambda>x. fitness (objs s x)) ` set (population p)" for y
    using that fittest_is_best [OF assms, of s] by auto
  show "fitness (objs s (hd (population (get_fittest s p))))
      \<in> (\<lambda>x. fitness (objs s x)) ` set (population p)"
    using fittest_is_best [OF assms, of s] by blast
qed

text \<open>
  Claim C8. In every generation (\<open>i < 5\<close>, from any state): if the inner loop has built
  the next-generation buffer \<open>nextgen1\<close> and the fittest of its members has fitness
  exactly 22, then \<open>generations\<close> returns at once. The value returned is the first member
  of the ranked buffer; it is a member of the buffer, no member is fitter, and its fitness
  is exactly 22. The buffer is returned ranked but not culled (it still holds all its
  members), and the population object is returned as it was when the generation began.
\<close>

theorem early_return_on_target:
  assumes "i < 5"
    and "build_loop 0 (pop_size nextgen) s pop nextgen bxs g = Some (Inr (s1, nextgen1, g1))"
    and "population nextgen1 \<noteq> []"
    and "Max ((\<lambda>x. fitness (objs s1 x)) ` set (population nextgen1)) = 22"
  shows "\<exists>best. generations i s pop nextgen bxs g
        = Some (Inr (s1, pop, get_fittest s1 nextgen1, Some best, g1))
      \<and> best = hd (population (get_fittest s1 nextgen1))
      \<and> best \<in> set (population nextgen1)
      \<and> fitness (objs s1 best) = 22
      \<and> (\<forall>x\<in>set (population nextgen1). fitness (objs s1 x) \<le> fitness (objs s1 best))
      \<and> mset (population (get_fittest s1 nextgen1)) = mset (population nextgen1)"
proof -
  let ?ng = "get_fittest s1 nextgen1"
  let ?best = "hd (population ?ng)"
  have first: "return_fittest s1 nextgen1 = Inr (?ng, ?best)"
    using assms(3) by (rule return_fittest_Inr)
  have "population ?ng \<noteq> []"
    using assms(3) by (simp add: population_get_fittest_Nil)
  then have second: "return_fittest s1 ?ng = Inr (?ng, ?best)"
    using return_fittest_Inr [of ?ng s1] by (simp add: get_fittest_idem)
  have fit: "fitness (objs s1 ?best) = 22"
    using fittest_fitness_Max [OF assms(3), of s1] assms(4) by simp
  have "generations i s pop nextgen bxs g = Some (Inr (s1, pop, ?ng, Some ?best, g1))"
    using assms(1,2) first second fit by (subst generations.simps) simp
  then show ?thesis
    using fit fittest_is_best [OF assms(3), of s1] mset_get_fittest [of s1 nextgen1] by simp
qed



subsection \<open>One breeding step, evaluated\<close>

lemma choice_first: "choice (a # xs) (0 ## g) = Inr (a, g)"
  by (simp add: choice_def)

lemma choice_second: "choice [a, b] (Suc 0 ## g) = Inr (b, g)"
  by (simp add: choice_def)

lemma redraw_distinct: "x \<noteq> y \<Longrightarrow> redraw members x y g = Some (Inr (y, g))"
  by (subst redraw.simps) simp

lemma mutate_loop_quiet3:
  "mutate_loop 0 (3 / 10) [x1, x2, x3] pool (7 ## 7 ## 7 ## g) = Inr ([x1, x2, x3], pool, g)"
  by (simp add: mutate_loop.simps mutant_prob_reference)

lemma mutate_quiet3:
  assumes "length (boxes (objs s baby)) = 3"
  shows "mutate s baby (3 / 10) bxs (7 ## 7 ## 7 ## g) = Inr (s, baby, g)"
proof -
  obtain x1 x2 x3 where bs: "boxes (objs s baby) = [x1, x2, x3]"
    using assms by (auto simp: length_Suc_conv numeral_3_eq_3)
  have "(objs s baby)\<lparr>boxes := boxes (objs s baby)\<rparr> = objs s baby"
    by simp
  then have "(objs s)(baby := (objs s baby)\<lparr>boxes := [x1, x2, x3]\<rparr>) = objs s"
    unfolding bs by simp
  then show ?thesis
    by (simp add: mutate_def bs mutate_loop_quiet3)
qed


lemma boxes_sample_1: "boxes (objs sample_store (Suc 0)) = [box_a, box_b, box_f]"
  by (simp add: sample_store_def sample_abc_def sample_child_def sample_cdf_def)

lemma sample_crossover_abf:
  "crossover sample_store (Suc 0) 0 (0 ## 0 ## 0 ## g) =
     Inr (\<lparr>objs = (objs sample_store)(3 := no_genes\<lparr>boxes := [box_a, box_b, box_f]\<rparr>),
           next_ref = 4\<rparr>, 3, g)"
proof -
  have nd: "\<not> dupe_check (objs sample_store (Suc 0)) (objs sample_store 0)"
    by (simp add: dupe_check_def boxes_sample_0 boxes_sample_1 box_defs)
  have t1: "sort_key name [box_a, box_b, box_f] = [box_a, box_b, box_f]"
    and t2: "sort_key name [box_a, box_b, box_c] = [box_a, box_b, box_c]"
    by (simp_all add: box_defs)
  have hx: "boxes (((objs sample_store)(next_ref sample_store := no_genes)) (Suc 0))
      = [box_a, box_b, box_f]"
    and hy: "boxes (((objs sample_store)(next_ref sample_store := no_genes)) 0)
      = [box_a, box_b, box_c]"
    by (simp_all add: next_ref_sample boxes_sample_0 boxes_sample_1)
  have loop:
    "crossover_loop 0 [box_a, box_b, box_f] [box_a, box_b, box_c] [] (0 ## 0 ## 0 ## g)
      = Inr ([box_a, box_b, box_f], g)"
    by (simp add: crossover_loop.simps randint_def box_defs)
  show ?thesis
    unfolding crossover_bred [OF nd] hx hy t1 t2 loop
    by (simp add: next_ref_sample)
qed


lemma sample_breed:
  "breed sample_store \<lparr>population = [1, 0], pop_size = 2\<rparr> \<lparr>population = [], pop_size = 1\<rparr>
      catalog (0 ## 1 ## 0 ## 0 ## 0 ## 7 ## 7 ## 7 ## g)
    = Some (Inr (\<lparr>objs = (objs sample_store)(3 := sample_child), next_ref = 4\<rparr>,
                 \<lparr>population = [3], pop_size = 1\<rparr>, g))"
proof -
  let ?s1 = "\<lparr>objs = (objs sample_store)(3 := no_genes\<lparr>boxes := [box_a, box_b, box_f]\<rparr>),
           next_ref = 4\<rparr>"
  have mut: "mutate ?s1 3 (3 / 10) catalog (7 ## 7 ## 7 ## g) = Inr (?s1, 3, g)"
    by (rule mutate_quiet3) simp
  show ?thesis
    apply (simp add: breed_def choice_first choice_second redraw_distinct sample_crossover_abf)
    apply (simp only: mut)
    apply (simp add: Let_def calc_fitness_def sum_weight_def sum_value_def no_genes_def
        sample_child_def box_defs)
    done
qed

lemma sample_build:
  "build_loop 0 (pop_size \<lparr>population = [], pop_size = 1\<rparr>) sample_store
      \<lparr>population = [1, 0], pop_size = 2\<rparr> \<lparr>population = [], pop_size = 1\<rparr>
      catalog (0 ## 1 ## 0 ## 0 ## 0 ## 7 ## 7 ## 7 ## g)
    = Some (Inr (\<lparr>objs = (objs sample_store)(3 := sample_child), next_ref = 4\<rparr>,
                 \<lparr>population = [3], pop_size = 1\<rparr>, g))"
proof -
  have stop: "build_loop (Suc 0) (Suc 0) s pop ng bxs g' = Some (Inr (s, ng, g'))"
    for s pop ng bxs g'
    by (subst build_loop.simps) simp
  show ?thesis
    by (subst build_loop.simps) (simp add: sample_breed [unfolded One_nat_def] stop)
qed

text \<open>
  The theorem on a run of one generation: the parents a, b, f and a, b, c breed the
  child a, b, f, which is not mutated, has fitness 22 and is returned.
\<close>

theorem early_return_on_target_witness:
  "(0::nat) < 5
   \<and> build_loop 0 (pop_size \<lparr>population = [], pop_size = 1\<rparr>) sample_store
        \<lparr>population = [1, 0], pop_size = 2\<rparr> \<lparr>population = [], pop_size = 1\<rparr>
        catalog (0 ## 1 ## 0 ## 0 ## 0 ## 7 ## 7 ## 7 ## sconst 0)
      = Some (Inr (\<lparr>objs = (objs sample_store)(3 := sample_child), next_ref = 4\<rparr>,
                   \<lparr>population = [3], pop_size = 1\<rparr>, sconst 0))
   \<and> Max ((\<lambda>x. fitness (objs \<lparr>objs = (objs sample_store)(3 := sample_child), next_ref = 4\<rparr> x))
          ` set (population \<lparr>population = [3], pop_size = 1\<rparr>)) = 22
   \<and> generations 0 sample_store
        \<lparr>population = [1, 0], pop_size = 2\<rparr> \<lparr>population = [], pop_size = 1\<rparr>
        catalog (0 ## 1 ## 0 ## 0 ## 0 ## 7 ## 7 ## 7 ## sconst 0)
      = Some (Inr (\<lparr>objs = (objs sample_store)(3 := sample_child), next_ref = 4\<rparr>,
                   \<lparr>population = [1, 0], pop_size = 2\<rparr>,
                   \<lparr>population = [3], pop_size = 1\<rparr>, Some 3, sconst 0))
   \<and> fitness (objs \<lparr>objs = (objs sample_store)(3 := sample_child), next_ref = 4\<rparr> 3) = 22"
proof -
  let ?s1 = "\<lparr>objs = (objs sample_store)(3 := sample_child), next_ref = 4\<rparr>"
  let ?ng1 = "\<lparr>population = [3], pop_size = 1\<rparr>"
  have i: "(0::nat) < 5"
    by simp
  have ne: "population ?ng1 \<noteq> []"
    by simp
  have mx: "Max ((\<lambda>x. fitness (objs ?s1 x)) ` set (population ?ng1)) = 22"
    by (simp add: sample_child_def)
  have srt: "get_fittest ?s1 ?ng1 = ?ng1"
    by (simp add: get_fittest_def)
  have gen: "generations 0 sample_store
        \<lparr>population = [1, 0], pop_size = 2\<rparr> \<lparr>population = [], pop_size = 1\<rparr>
        catalog (0 ## 1 ## 0 ## 0 ## 0 ## 7 ## 7 ## 7 ## sconst 0)
      = Some (Inr (?s1, \<lparr>population = [1, 0], pop_size = 2\<rparr>, ?ng1, Some 3, sconst 0))"
    using early_return_on_target [OF i sample_build ne mx] unfolding srt by simp
  have fit: "fitness (objs ?s1 3) = 22"
    by (simp add: sample_child_def)
  show ?thesis
    by (intro conjI i sample_build mx gen fit)
qed

subsection \<open>Termination\<close>

text \<open>
  The re-draw loop returns only if the population holds an object other than \<open>x\<close>, or is
  empty (then \<^verbatim>\<open>random.choice\<close> raises): on a non-empty population whose members are all
  the object \<open>x\<close> it never returns, whatever the generator draws.
\<close>

lemma redraw_step:
  fixes f :: "ref list \<Rightarrow> ref \<Rightarrow> ref \<Rightarrow> rng \<Rightarrow> (error + ref \<times> rng) option"
  assumes ih: "\<And>members x y g r. f members x y g = Some r \<Longrightarrow>
      \<not> (x = y \<and> members \<noteq> [] \<and> (\<forall>m\<in>set members. m = x))"
    and unfold: "(if x = y
          then case choice members g of
                 Inl e \<Rightarrow> Some (Inl e)
               | Inr (y', g') \<Rightarrow> f members x y' g'
          else Some (Inr (y, g))) = Some r"
  shows "\<not> (x = y \<and> members \<noteq> [] \<and> (\<forall>m\<in>set members. m = x))"
proof
  assume stuck: "x = y \<and> members \<noteq> [] \<and> (\<forall>m\<in>set members. m = x)"
  then obtain y' where y': "choice members g = Inr (y', stl g)" "y' \<in> set members"
    using choice_Inr [of members g] by blast
  then have "f members x y' (stl g) = Some r"
    using unfold stuck by simp
  then have "\<not> (x = y' \<and> members \<noteq> [] \<and> (\<forall>m\<in>set members. m = x))"
    by (rule ih)
  moreover have "y' = x"
    using stuck y'(2) by blast
  ultimately show False
    using stuck by blast
qed

lemma redraw_escapes:
  assumes "redraw members x y g = Some r"
  shows "\<not> (x = y \<and> members \<noteq> [] \<and> (\<forall>m\<in>set members. m = x))"
proof -
  let ?P = "\<lambda>members x y (g :: rng) (r :: error + ref \<times> rng).
      \<not> ((x :: ref) = y \<and> members \<noteq> [] \<and> (\<forall>m\<in>set members. m = x))"
  have "(case (((members, x), y), g) of
      (a, g) \<Rightarrow> (case a of (a, y) \<Rightarrow> (case a of (members, x) \<Rightarrow> ?P members x) y) g) r"
    by (rule redraw.raw_induct [where P = ?P]) (erule (1) redraw_step, use assms in simp)
  then show ?thesis
    by simp
qed

lemma redraw_stuck:
  assumes "members \<noteq> []" and "\<forall>m\<in>set members. m = x"
  shows "redraw members x x g = None"
proof (cases "redraw members x x g")
  case None
  then show ?thesis .
next
  case (Some r)
  then show ?thesis
    using redraw_escapes [OF Some] assms by blast
qed


lemma breed_stuck:
  assumes "population pop = replicate (Suc m) p0"
  shows "breed s pop nextgen bxs g = None"
proof -
  have ne: "population pop \<noteq> []"
    using assms by simp
  have all: "\<forall>r\<in>set (population pop). r = p0"
    using assms by simp
  obtain x where x: "choice (population pop) g = Inr (x, stl g)" "x \<in> set (population pop)"
    using choice_Inr [OF ne] by blast
  obtain y where y: "choice (population pop) (stl g) = Inr (y, stl (stl g))"
      "y \<in> set (population pop)"
    using choice_Inr [OF ne] by blast
  have "x = p0" "y = p0"
    using all x(2) y(2) by blast+
  then have "redraw (population pop) x y (stl (stl g)) = None"
    using redraw_stuck [OF ne all] by simp
  then show ?thesis
    by (simp add: breed_def x(1) y(1))
qed

lemma generations_stuck:
  assumes "i < 5" and "0 < pop_size nextgen" and "population pop = replicate (Suc m) p0"
  shows "generations i s pop nextgen bxs g = None"
proof -
  have "build_loop 0 (pop_size nextgen) s pop nextgen bxs g = None"
    using assms(2) by (subst build_loop.simps) (simp add: breed_stuck [OF assms(3)])
  then show ?thesis
    using assms(1) by (subst generations.simps) simp
qed

text \<open>
  Breeding two different objects that are duplicates of each other: \<open>crossover\<close> returns
  the first parent itself, the three draws of 7 mutate nothing, and the derived fields
  are written back unchanged. The buffer receives a reference to the parent.
\<close>

lemma breed_alias:
  assumes len: "length (population pop) = 35"
    and p0: "population pop ! 0 = p0" and p1: "population pop ! Suc 0 = p1"
    and ne: "p0 \<noteq> p1"
    and dupe: "dupe_check (objs s p0) (objs s p1)"
    and len3: "length (boxes (objs s p0)) = 3"
    and fit: "calc_fitness (objs s p0) = Inr (fitness (objs s p0))"
    and tw: "total_weight (objs s p0) = sum_weight (objs s p0)"
    and tv: "total_value (objs s p0) = sum_value (objs s p0)"
  shows "breed s pop nextgen bxs (0 ## 36 ## 7 ## 7 ## 7 ## g)
    = Some (Inr (s, nextgen\<lparr>population := population nextgen @ [p0]\<rparr>, g))"
proof -
  have nonempty: "population pop \<noteq> []"
    using len by auto
  have x: "choice (population pop) (0 ## 36 ## 7 ## 7 ## 7 ## g) = Inr (p0, 36 ## 7 ## 7 ## 7 ## g)"
    using nonempty by (simp add: choice_def len p0)
  have y: "choice (population pop) (36 ## 7 ## 7 ## 7 ## g) = Inr (p1, 7 ## 7 ## 7 ## g)"
    using nonempty by (simp add: choice_def len p1)
  have rd: "redraw (population pop) p0 p1 (7 ## 7 ## 7 ## g) = Some (Inr (p1, 7 ## 7 ## 7 ## g))"
    using ne by (rule redraw_distinct)
  have cr: "crossover s p0 p1 (7 ## 7 ## 7 ## g) = Inr (s, p0, 7 ## 7 ## 7 ## g)"
    using dupe by (rule crossover_same)
  have mu: "mutate s p0 (3 / 10) bxs (7 ## 7 ## 7 ## g) = Inr (s, p0, g)"
    using len3 by (rule mutate_quiet3)
  have "(objs s p0)\<lparr>fitness := fitness (objs s p0)\<rparr> = objs s p0"
    "(objs s p0)\<lparr>total_weight := total_weight (objs s p0)\<rparr> = objs s p0"
    "(objs s p0)\<lparr>total_value := total_value (objs s p0)\<rparr> = objs s p0"
    by simp_all
  then have same: "(objs s p0)\<lparr>fitness := fitness (objs s p0)\<rparr> = objs s p0"
    "(objs s p0)\<lparr>total_weight := sum_weight (objs s p0)\<rparr> = objs s p0"
    "(objs s p0)\<lparr>total_value := sum_value (objs s p0)\<rparr> = objs s p0"
    unfolding tw tv .
  show ?thesis
    by (simp add: breed_def x y rd cr mu fit same Let_def)
qed

lemma build_loop_alias:
  assumes len: "length (population pop) = 35"
    and p0: "population pop ! 0 = p0" and p1: "population pop ! Suc 0 = p1"
    and ne: "p0 \<noteq> p1"
    and dupe: "dupe_check (objs s p0) (objs s p1)"
    and len3: "length (boxes (objs s p0)) = 3"
    and fit: "calc_fitness (objs s p0) = Inr (fitness (objs s p0))"
    and tw: "total_weight (objs s p0) = sum_weight (objs s p0)"
    and tv: "total_value (objs s p0) = sum_value (objs s p0)"
  shows "build_loop j (j + k) s pop nextgen bxs (concat (replicate k [0, 36, 7, 7, 7]) @- g)
    = Some (Inr (s, nextgen\<lparr>population := population nextgen @ replicate k p0\<rparr>, g))"
proof (induction k arbitrary: j nextgen)
  case 0
  show ?case
    by (subst build_loop.simps) simp
next
  case (Suc k)
  let ?ng = "nextgen\<lparr>population := population nextgen @ [p0]\<rparr>"
  have "build_loop (Suc j) (Suc j + k) s pop ?ng bxs (concat (replicate k [0, 36, 7, 7, 7]) @- g)
    = Some (Inr (s, ?ng\<lparr>population := population ?ng @ replicate k p0\<rparr>, g))"
    by (rule Suc.IH)
  moreover have "breed s pop nextgen bxs
      (0 ## 36 ## 7 ## 7 ## 7 ## concat (replicate k [0, 36, 7, 7, 7]) @- g)
    = Some (Inr (s, ?ng, concat (replicate k [0, 36, 7, 7, 7]) @- g))"
    using assms by (rule breed_alias)
  ultimately show ?case
    by (subst build_loop.simps) (simp add: replicate_app_Cons_same)
qed


lemma get_fittest_replicate:
  "population p = replicate n p0 \<Longrightarrow> get_fittest s p = p"
proof -
  assume r: "population p = replicate n p0"
  have "sorted (map (\<lambda>x. - fitness (objs s x)) (replicate n p0))"
    by (simp add: sorted_replicate)
  then have "sort_key (\<lambda>x. - fitness (objs s x)) (replicate n p0) = replicate n p0"
    by (rule sort_key_id_if_sorted)
  then show ?thesis
    by (simp add: get_fittest_def r)
qed

lemma genetic_algo_collapses:
  assumes size: "pop_size pop = 35"
    and len: "length (population pop) = 35"
    and p0: "population pop ! 0 = p0" and p1: "population pop ! Suc 0 = p1"
    and ne: "p0 \<noteq> p1"
    and dupe: "dupe_check (objs s p0) (objs s p1)"
    and len3: "length (boxes (objs s p0)) = 3"
    and fit: "calc_fitness (objs s p0) = Inr (fitness (objs s p0))"
    and tw: "total_weight (objs s p0) = sum_weight (objs s p0)"
    and tv: "total_value (objs s p0) = sum_value (objs s p0)"
    and miss: "fitness (objs s p0) \<noteq> 22"
  shows "genetic_algo s pop bxs (concat (replicate 35 [0, 36, 7, 7, 7]) @- g) = None"
proof -
  let ?buffer = "\<lparr>population = [], pop_size = 35\<rparr>"
  let ?full = "\<lparr>population = replicate 35 p0, pop_size = 35\<rparr>"
  have "build_loop 0 (0 + 35) s pop ?buffer bxs (concat (replicate 35 [0, 36, 7, 7, 7]) @- g)
      = Some (Inr (s, ?buffer\<lparr>population := population ?buffer @ replicate 35 p0\<rparr>, g))"
    using len p0 p1 ne dupe len3 fit tw tv by (rule build_loop_alias)
  then have built: "build_loop 0 35 s pop ?buffer bxs
      (concat (replicate 35 [0, 36, 7, 7, 7]) @- g) = Some (Inr (s, ?full, g))"
    by simp
  have ranked: "get_fittest s ?full = ?full"
    by (rule get_fittest_replicate [of _ 35 p0]) simp
  have fittest: "return_fittest s ?full = Inr (?full, p0)"
    by (simp add: return_fittest_def ranked)
  let ?grown = "pop\<lparr>population := replicate 35 p0\<rparr>"
  have "get_fittest s ?grown = ?grown"
    by (rule get_fittest_replicate [of _ 35 p0]) simp
  then have culled: "population (cull s ?grown) = replicate (Suc 16) p0"
    by (simp add: cull_def Let_def)
  have stuck: "generations (Suc 0) s (cull s ?grown) ?buffer bxs g = None"
    by (rule generations_stuck [OF _ _ culled]) simp_all
  have "generations 0 s pop ?buffer bxs (concat (replicate 35 [0, 36, 7, 7, 7]) @- g) = None"
    by (subst generations.simps) (simp add: built fittest miss stuck Let_def)
  then show ?thesis
    by (simp add: genetic_algo_def size)
qed


lemma three_mod_two: "(3::nat) mod Suc (Suc 0) = Suc 0"
  by presburger

lemma shuffle_in_order:
  "shuffle [x0, x1, x2, x3, x4, x5, x6] (6 ## 5 ## 4 ## 3 ## 2 ## 3 ## g)
     = ([x0, x1, x2, x3, x4, x5, x6], g)"
proof -
  have "shuffle_from (Suc (Suc (Suc (Suc (Suc (Suc 0)))))) [x0, x1, x2, x3, x4, x5, x6]
      (6 ## 5 ## 4 ## 3 ## 2 ## 3 ## g) = ([x0, x1, x2, x3, x4, x5, x6], g)"
    by (simp add: Let_def three_mod_two)
  then show ?thesis
    by (simp add: shuffle_def)
qed



lemma new_chromosome_abc: "new_chromosome [box_a, box_b, box_c] = Inr sample_abc"
  by (simp add: new_chromosome_def calc_fitness_def sum_weight_def sum_value_def sample_abc_def
      box_defs)

lemma Chromosome_in_order:
  "Chromosome s catalog (6 ## 5 ## 4 ## 3 ## 2 ## 3 ## g)
     = Inr (s\<lparr>objs := (objs s)(next_ref s := sample_abc),
              next_ref := Suc (next_ref s)\<rparr>, next_ref s, catalog, g)"
proof -
  have "gen_loop 0 catalog [] = Inr [box_a, box_b, box_c]"
    by (simp add: gen_loop.simps catalog_def)
  then have "gen_chromosome catalog (6 ## 5 ## 4 ## 3 ## 2 ## 3 ## g)
      = Inr ([box_a, box_b, box_c], catalog, g)"
    unfolding gen_chromosome_def by (simp add: catalog_def shuffle_in_order)
  then show ?thesis
    by (simp add: Chromosome_def new_chromosome_abc)
qed

lemma generate_loop_in_order:
  "generate_loop i (i + k) s pop catalog (concat (replicate k [6, 5, 4, 3, 2, 3]) @- g)
     = Inr (\<lparr>objs = (\<lambda>r. if next_ref s \<le> r \<and> r < next_ref s + k
                           then sample_abc else objs s r),
             next_ref = next_ref s + k\<rparr>,
           pop\<lparr>population := population pop @ [next_ref s ..< next_ref s + k]\<rparr>, catalog, g)"
proof (induction k arbitrary: i s pop)
  case 0
  have "(\<lambda>r. if next_ref s \<le> r \<and> r < next_ref s + 0
        then sample_abc else objs s r) = objs s"
    by (rule ext) auto
  then show ?case
    by (subst generate_loop.simps) simp
next
  case (Suc k)
  let ?abc = "sample_abc"
  let ?alloc = "s\<lparr>objs := (objs s)(next_ref s := ?abc), next_ref := Suc (next_ref s)\<rparr>"
  let ?grown = "pop\<lparr>population := population pop @ [next_ref s]\<rparr>"
  let ?rest = "concat (replicate k [6, 5, 4, 3, 2, 3]) @- g"
  have one: "Chromosome s catalog (6 ## 5 ## 4 ## 3 ## 2 ## 3 ## ?rest)
      = Inr (?alloc, next_ref s, catalog, ?rest)"
    by (rule Chromosome_in_order)
  have more: "generate_loop (Suc i) (Suc i + k) ?alloc ?grown catalog ?rest
      = Inr (\<lparr>objs = (\<lambda>r. if next_ref ?alloc \<le> r \<and> r < next_ref ?alloc + k
                           then ?abc else objs ?alloc r),
             next_ref = next_ref ?alloc + k\<rparr>,
           ?grown\<lparr>population := population ?grown @ [next_ref ?alloc ..< next_ref ?alloc + k]\<rparr>,
           catalog, g)"
    by (rule Suc.IH)
  have objs_eq: "(\<lambda>r. if next_ref ?alloc \<le> r \<and> r < next_ref ?alloc + k then ?abc else objs ?alloc r)
      = (\<lambda>r. if next_ref s \<le> r \<and> r < next_ref s + Suc k then ?abc else objs s r)"
    by (rule ext) auto
  have members_eq: "population ?grown @ [next_ref ?alloc ..< next_ref ?alloc + k]
      = population pop @ [next_ref s ..< next_ref s + Suc k]"
    by (simp add: upt_conv_Cons)
  have "generate_loop i (i + Suc k) s pop catalog
      (6 ## 5 ## 4 ## 3 ## 2 ## 3 ## ?rest)
      = generate_loop (Suc i) (Suc i + k) ?alloc ?grown catalog ?rest"
    by (subst generate_loop.simps) (simp add: one)
  also have "\<dots> = Inr (\<lparr>objs = (\<lambda>r. if next_ref s \<le> r \<and> r < next_ref s + Suc k
                           then ?abc else objs s r),
             next_ref = next_ref s + Suc k\<rparr>,
           pop\<lparr>population := population pop @ [next_ref s ..< next_ref s + Suc k]\<rparr>,
           catalog, g)"
    unfolding more objs_eq members_eq by simp
  finally show ?case
    by simp
qed

lemma abc_fields:
  "fitness sample_abc = 19"
  "calc_fitness sample_abc = Inr (fitness sample_abc)"
  "total_weight sample_abc = sum_weight sample_abc"
  "total_value sample_abc = sum_value sample_abc"
  by (simp_all add: calc_fitness_def sum_weight_def sum_value_def sample_abc_def box_defs)

text \<open>
  Claim C3 says that the reference run (the 7-item catalog, population size 35, mutation
  probability 0.30, target 22, at most five generations) terminates for every sequence
  of draws. It does not: after the draws \<open>stuck_draws\<close>, however the generator continues,
  the run never returns. Every child of the first generation is the object
  \<^verbatim>\<open>population[0]\<close> itself, so the buffer, and after the cull the population, hold 17
  references to one object; in the second generation both parents are that object and
  \<^verbatim>\<open>while x == y\<close> has nothing else to draw.
\<close>

theorem driver_never_returns: "driver (stuck_draws @- g) = None"
proof -
  let ?abc = "sample_abc"
  let ?s = "\<lparr>objs = (\<lambda>r. if next_ref empty_store \<le> r \<and> r < next_ref empty_store + 35
                           then ?abc else objs empty_store r),
             next_ref = next_ref empty_store + 35\<rparr>"
  let ?initial = "\<lparr>population = [], pop_size = 35\<rparr>"
  let ?pop = "?initial\<lparr>population := population ?initial @
      [next_ref empty_store ..< next_ref empty_store + 35]\<rparr>"
  let ?later = "concat (replicate 35 [0, 36, 7, 7, 7]) @- g"
  have "generate_loop 0 (0 + 35) empty_store ?initial catalog
      (concat (replicate 35 [6, 5, 4, 3, 2, 3]) @- ?later) = Inr (?s, ?pop, catalog, ?later)"
    by (rule generate_loop_in_order)
  then have gen: "generate_population empty_store ?initial catalog (stuck_draws @- g)
      = Inr (?s, ?pop, catalog, ?later)"
    by (simp add: generate_population_def stuck_draws_def shift_append)
  have members: "population ?pop = [0..<35]" "pop_size ?pop = 35"
    by (simp_all add: empty_store_def)
  have o0: "objs ?s 0 = ?abc" and o1: "objs ?s (Suc 0) = ?abc"
    by (simp_all add: empty_store_def)
  have "genetic_algo ?s ?pop catalog ?later = None"
  proof (rule genetic_algo_collapses [where ?p0.0 = 0 and ?p1.0 = "Suc 0"])
    show "pop_size ?pop = 35" "length (population ?pop) = 35"
      "population ?pop ! 0 = 0" "population ?pop ! Suc 0 = Suc 0"
      by (simp_all add: empty_store_def)
    show "(0::nat) \<noteq> Suc 0"
      by simp
    show "dupe_check (objs ?s 0) (objs ?s (Suc 0))"
      unfolding o0 o1 by (simp add: dupe_check_iff)
    show "length (boxes (objs ?s 0)) = 3"
      unfolding o0 by (simp add: sample_abc_def)
    show "calc_fitness (objs ?s 0) = Inr (fitness (objs ?s 0))"
      "total_weight (objs ?s 0) = sum_weight (objs ?s 0)"
      "total_value (objs ?s 0) = sum_value (objs ?s 0)"
      "fitness (objs ?s 0) \<noteq> 22"
      unfolding o0 using abc_fields by simp_all
  qed
  then show ?thesis
    unfolding driver_def gen by simp
qed

end
